theory Spec2Isabelle
  imports Main "HOL-Library.Sublist" "HOL-Library.AList" "HOL-Library.Multiset"
begin

section \<open>Python values handled by the knowledge parser\<close>

text \<open>
  The parser moves JSON documents around: whatever \<^verbatim>\<open>json.loads\<close> returns. A JSON
  object is a Python \<^verbatim>\<open>dict\<close>, which keeps its keys in insertion order, so it is an
  association list here (looked up with \<open>map_of\<close>, assigned with \<open>AList.update\<close>:
  an existing key keeps its place, a new key goes to the end). Python's \<^verbatim>\<open>None\<close> is
  \<open>JNull\<close>. Numbers are Python's unbounded integers; JSON numbers with a fraction
  are outside this model. A character is a code point below 256.
\<close>

datatype json =
    JNull
  | JBool bool
  | JInt int
  | JStr string
  | JList "json list"
  | JDict "(string \<times> json) list"

type_synonym dict = "(string \<times> json) list"

text \<open>The exceptions the modelled code can raise, as values.\<close>

datatype error =
    AttributeError
  | TypeError
  | ValueError
  | ServiceError
  | UnicodeEncodeError

text \<open>Python's \<^verbatim>\<open>try: body  except Exception: handler\<close>.\<close>

definition try_except :: "error + 'a \<Rightarrow> (error \<Rightarrow> error + 'a) \<Rightarrow> error + 'a" where
  "try_except body handler = (case body of Inl e \<Rightarrow> handler e | Inr v \<Rightarrow> Inr v)"

text \<open>Sequencing of two steps, the second of which runs only if the first did not raise.\<close>

definition and_then :: "error + 'a \<Rightarrow> ('a \<Rightarrow> error + 'b) \<Rightarrow> error + 'b" where
  "and_then r f = (case r of Inl e \<Rightarrow> Inl e | Inr v \<Rightarrow> f v)"

text \<open>Truthiness (\<^verbatim>\<open>if x:\<close>, \<^verbatim>\<open>not x\<close>).\<close>

fun truthy :: "json \<Rightarrow> bool" where
  "truthy JNull = False"
| "truthy (JBool b) = b"
| "truthy (JInt n) = (n \<noteq> 0)"
| "truthy (JStr s) = (s \<noteq> [])"
| "truthy (JList xs) = (xs \<noteq> [])"
| "truthy (JDict kvs) = (kvs \<noteq> [])"

text \<open>
  A list or a dict cannot be a member of a Python set: hashing it raises
  \<^verbatim>\<open>TypeError\<close>.
\<close>

fun hashable :: "json \<Rightarrow> bool" where
  "hashable (JList xs) = False"
| "hashable (JDict kvs) = False"
| "hashable v = True"

text \<open>
  Python's \<^verbatim>\<open>==\<close> on hashable values: \<^verbatim>\<open>True == 1\<close> and \<^verbatim>\<open>False == 0\<close>, otherwise
  values of different types differ. The code below compares names only after it has
  hashed them, so \<open>py_eq\<close> is never applied to a list or a dict.
\<close>

fun hash_key :: "json \<Rightarrow> json" where
  "hash_key (JBool b) = JInt (if b then 1 else 0)"
| "hash_key v = v"

definition py_eq :: "json \<Rightarrow> json \<Rightarrow> bool" where
  "py_eq a b = (hash_key a = hash_key b)"

text \<open>\<^verbatim>\<open>x in s\<close> for a set \<open>s\<close> of hashed values, kept as the list of its members.\<close>

definition in_names :: "json \<Rightarrow> json list \<Rightarrow> bool" where
  "in_names x s = list_ex (py_eq x) s"

text \<open>
  \<^verbatim>\<open>obj.get(key, default)\<close>: only a dict has the method; on any other JSON value
  the attribute lookup raises \<^verbatim>\<open>AttributeError\<close>.
\<close>

definition dict_get :: "dict \<Rightarrow> string \<Rightarrow> json \<Rightarrow> json" where
  "dict_get d key dflt = (case map_of d key of None \<Rightarrow> dflt | Some v \<Rightarrow> v)"

definition py_get :: "json \<Rightarrow> string \<Rightarrow> json \<Rightarrow> error + json" where
  "py_get obj key dflt =
     (case obj of JDict d \<Rightarrow> Inr (dict_get d key dflt) | _ \<Rightarrow> Inl AttributeError)"

section \<open>Structural merge (knowledge\_parser.py, lines 847--932)\<close>

text \<open>
  The merge functions copy their first argument shallowly and then extend lists of
  the copy in place, so the caller's base value is changed too. Every caller drops
  the base value after the call; the model therefore keeps the returned value only.

  Python's built-in \<^verbatim>\<open>str\<close>, which the list de-duplication compares items by, is the
  parameter \<open>pystr\<close>: every theorem holds for whatever it returns.
\<close>

text \<open>
  \<^verbatim>\<open>_merge_dict_data(base_dict, new_dict)\<close>. The first argument is the working copy
  \<^verbatim>\<open>merged\<close>, the second the items of \<^verbatim>\<open>new_dict\<close> still to visit. The set
  \<^verbatim>\<open>existing_items\<close> is built once and not extended inside the loop.
\<close>

function (sequential) merge_dict_data :: "(json \<Rightarrow> string) \<Rightarrow> dict \<Rightarrow> dict \<Rightarrow> dict" where
  "merge_dict_data pystr merged [] = merged"
| "merge_dict_data pystr merged ((key, value) # rest) =
     merge_dict_data pystr
       (case map_of merged key of
          None \<Rightarrow> merged @ [(key, value)]
        | Some old \<Rightarrow>
            (case (value, old) of
               (JDict nd, JDict od) \<Rightarrow>
                 AList.update key (JDict (merge_dict_data pystr od nd)) merged
             | (JList nl, JList ol) \<Rightarrow>
                 AList.update key
                   (JList (ol @ filter (\<lambda>item. pystr item \<notin> set (map pystr ol)) nl)) merged
             | _ \<Rightarrow> merged))
       rest"
  by pat_completeness auto
termination
  by (relation "measure (\<lambda>(p, m, n). size (JDict n))") auto

text \<open>
  The set comprehension \<^verbatim>\<open>{char.get("name", "") for char in base_list}\<close>: each
  entry must have \<^verbatim>\<open>get\<close> and each name must hash.
\<close>

fun names_of :: "json list \<Rightarrow> error + json list" where
  "names_of [] = Inr []"
| "names_of (char # chars) =
     and_then (py_get char ''name'' (JStr ''''))
       (\<lambda>n. if \<not> hashable n then Inl TypeError
            else and_then (names_of chars) (\<lambda>ns. Inr (n # ns)))"

text \<open>
  The inner loop of \<^verbatim>\<open>_merge_character_lists\<close>: the first entry of \<^verbatim>\<open>merged\<close> whose
  \<^verbatim>\<open>get("name")\<close> equals the name is replaced by its merge with the new entry, and
  the loop breaks. Without a match nothing changes.
\<close>

fun merge_into :: "(json \<Rightarrow> string) \<Rightarrow> json \<Rightarrow> dict \<Rightarrow> json list \<Rightarrow> error + json list" where
  "merge_into pystr char_name new_char [] = Inr []"
| "merge_into pystr char_name new_char (existing_char # rest) =
     (case existing_char of
        JDict e \<Rightarrow>
          if py_eq (dict_get e ''name'' JNull) char_name
          then Inr (JDict (merge_dict_data pystr e new_char) # rest)
          else and_then (merge_into pystr char_name new_char rest)
                 (\<lambda>rest'. Inr (existing_char # rest'))
      | _ \<Rightarrow> Inl AttributeError)"

text \<open>
  The outer loop over \<^verbatim>\<open>new_list\<close>, with the state \<^verbatim>\<open>(merged, existing_names)\<close>.
  \<^verbatim>\<open>char_name and char_name not in existing_names\<close> hashes the name only when it
  is truthy; the \<^verbatim>\<open>elif\<close> hashes it in every other case.
\<close>

fun merge_chars_loop ::
  "(json \<Rightarrow> string) \<Rightarrow> json list \<Rightarrow> json list \<Rightarrow> json list \<Rightarrow> error + json list" where
  "merge_chars_loop pystr merged existing_names [] = Inr merged"
| "merge_chars_loop pystr merged existing_names (new_char # rest) =
     and_then (py_get new_char ''name'' (JStr ''''))
       (\<lambda>char_name.
          if \<not> hashable char_name then Inl TypeError
          else if truthy char_name \<and> \<not> in_names char_name existing_names
          then merge_chars_loop pystr (merged @ [new_char]) (existing_names @ [char_name]) rest
          else if in_names char_name existing_names
          then (case new_char of
                  JDict n \<Rightarrow>
                    and_then (merge_into pystr char_name n merged)
                      (\<lambda>merged'. merge_chars_loop pystr merged' existing_names rest)
                | _ \<Rightarrow> Inl AttributeError)
          else merge_chars_loop pystr merged existing_names rest)"

text \<open>\<^verbatim>\<open>_merge_character_lists(base_list, new_list)\<close>.\<close>

definition merge_character_lists ::
  "(json \<Rightarrow> string) \<Rightarrow> json list \<Rightarrow> json list \<Rightarrow> error + json list" where
  "merge_character_lists pystr base_list new_list =
     (if base_list = [] then Inr new_list
      else if new_list = [] then Inr base_list
      else and_then (names_of base_list)
             (\<lambda>existing_names. merge_chars_loop pystr base_list existing_names new_list))"

text \<open>
  The list branch of \<^verbatim>\<open>_merge_worldview_data\<close>: unlike \<^verbatim>\<open>_merge_dict_data\<close> it adds
  every appended item to \<^verbatim>\<open>existing_items\<close>.
\<close>

fun dedup_extend ::
  "(json \<Rightarrow> string) \<Rightarrow> string list \<Rightarrow> json list \<Rightarrow> json list \<Rightarrow> json list" where
  "dedup_extend pystr existing_items target [] = target"
| "dedup_extend pystr existing_items target (item # items) =
     (if pystr item \<notin> set existing_items
      then dedup_extend pystr (existing_items @ [pystr item]) (target @ [item]) items
      else dedup_extend pystr existing_items target items)"

text \<open>
  The loop of \<^verbatim>\<open>_merge_worldview_data\<close> over \<^verbatim>\<open>new_data.items()\<close>. Two strings are
  joined by a newline unless the new one already occurs in the old one
  (\<^verbatim>\<open>value not in merged[key]\<close> is the substring test).
\<close>

fun worldview_loop :: "(json \<Rightarrow> string) \<Rightarrow> dict \<Rightarrow> dict \<Rightarrow> dict" where
  "worldview_loop pystr merged [] = merged"
| "worldview_loop pystr merged ((key, value) # rest) =
     worldview_loop pystr
       (case map_of merged key of
          None \<Rightarrow> merged @ [(key, value)]
        | Some old \<Rightarrow>
            (case (value, old) of
               (JList nl, JList ol) \<Rightarrow>
                 AList.update key (JList (dedup_extend pystr (map pystr ol) ol nl)) merged
             | (JDict nd, JDict od) \<Rightarrow>
                 AList.update key (JDict (merge_dict_data pystr od nd)) merged
             | (JStr v, JStr s) \<Rightarrow>
                 if \<not> sublist v s then AList.update key (JStr (s @ [CHR 0x0A] @ v)) merged
                 else merged
             | _ \<Rightarrow> merged))
       rest"

text \<open>\<^verbatim>\<open>_merge_worldview_data(base_data, new_data)\<close>, on the contents of two dicts.\<close>

definition merge_worldview_data :: "(json \<Rightarrow> string) \<Rightarrow> dict \<Rightarrow> dict \<Rightarrow> dict" where
  "merge_worldview_data pystr base_data new_data =
     (if base_data = [] then new_data
      else if new_data = [] then base_data
      else worldview_loop pystr base_data new_data)"

text \<open>
  \<^verbatim>\<open>merge_func\<close> is passed around as a callable on JSON values. The two callables
  the parser passes are the methods above, declared on \<^verbatim>\<open>Dict\<close> and on
  \<^verbatim>\<open>List[Dict]\<close> arguments; a call outside the declared types is an error branch
  that no caller in this file reaches.
\<close>

type_synonym merge_func = "json \<Rightarrow> json \<Rightarrow> error + json"

definition on_dicts :: "(dict \<Rightarrow> dict \<Rightarrow> dict) \<Rightarrow> merge_func" where
  "on_dicts f base new =
     (case (base, new) of
        (JDict b, JDict n) \<Rightarrow> Inr (JDict (f b n))
      | _ \<Rightarrow> Inl TypeError)"

definition on_lists :: "(json list \<Rightarrow> json list \<Rightarrow> error + json list) \<Rightarrow> merge_func" where
  "on_lists f base new =
     (case (base, new) of
        (JList b, JList n) \<Rightarrow> and_then (f b n) (\<lambda>r. Inr (JList r))
      | _ \<Rightarrow> Inl TypeError)"

section \<open>Hierarchical merge (knowledge\_parser.py, lines 176--362)\<close>

text \<open>The category's empty value: \<^verbatim>\<open>{} if extraction_type != "characters" else []\<close>.\<close>

definition empty_value :: "string \<Rightarrow> json" where
  "empty_value extraction_type =
     (if extraction_type \<noteq> ''characters'' then JDict [] else JList [])"

text \<open>
  \<^verbatim>\<open>_fallback_merge_group\<close>. For characters the loop folds the list-valued items
  with \<^verbatim>\<open>_merge_character_lists\<close> (the \<^verbatim>\<open>merge_func\<close> argument is not used); for every
  other category it folds the dict-valued items with \<^verbatim>\<open>merge_func\<close>. Items of the
  wrong shape are skipped.
\<close>

fun fallback_characters ::
  "(json \<Rightarrow> string) \<Rightarrow> json list \<Rightarrow> json list \<Rightarrow> error + json list" where
  "fallback_characters pystr result [] = Inr result"
| "fallback_characters pystr result (item # grp) =
     (case item of
        JList new_list \<Rightarrow>
          and_then (merge_character_lists pystr result new_list)
            (\<lambda>result'. fallback_characters pystr result' grp)
      | _ \<Rightarrow> fallback_characters pystr result grp)"

fun fallback_mappings :: "merge_func \<Rightarrow> json \<Rightarrow> json list \<Rightarrow> error + json" where
  "fallback_mappings merge_func result [] = Inr result"
| "fallback_mappings merge_func result (item # grp) =
     (case item of
        JDict d \<Rightarrow>
          and_then (merge_func result item)
            (\<lambda>result'. fallback_mappings merge_func result' grp)
      | _ \<Rightarrow> fallback_mappings merge_func result grp)"

definition fallback_merge_group ::
  "(json \<Rightarrow> string) \<Rightarrow> json list \<Rightarrow> merge_func \<Rightarrow> string \<Rightarrow> error + json" where
  "fallback_merge_group pystr grp merge_func extraction_type =
     (if extraction_type = ''characters''
      then and_then (fallback_characters pystr [] grp) (\<lambda>result. Inr (JList result))
      else fallback_mappings merge_func (JDict []) grp)"

text \<open>
  The completion service is outside the repository. What \<^verbatim>\<open>_ai_merge_group\<close> sees of
  one merge request (\<^verbatim>\<open>json.dumps\<close>, the prompt, \<^verbatim>\<open>invoke_with_cleaning\<close>,
  \<^verbatim>\<open>json.loads\<close>) is one of four outcomes: an exception inside the \<^verbatim>\<open>try\<close>, a
  blank text, a text that is not JSON, or a parsed JSON value (\<^verbatim>\<open>null\<close> parses to
  \<^verbatim>\<open>None\<close>, that is \<open>JNull\<close>). The service is a parameter indexed by level, group
  number and group, so that it may answer every request differently.
\<close>

datatype ai_outcome = AiFailed | AiEmpty | AiNotJson | AiJson json

type_synonym ai_service = "nat \<Rightarrow> nat \<Rightarrow> json list \<Rightarrow> ai_outcome"

text \<open>
  \<^verbatim>\<open>_ai_merge_group\<close>. The fallback calls made inside the \<^verbatim>\<open>try\<close> are covered by
  the \<^verbatim>\<open>except Exception\<close> handler, which calls the fallback once more; an
  exception of that last call leaves the method.
\<close>

definition ai_merge_group ::
  "ai_service \<Rightarrow> (json \<Rightarrow> string) \<Rightarrow> json list \<Rightarrow> merge_func \<Rightarrow> string \<Rightarrow> nat \<Rightarrow> nat
     \<Rightarrow> error + json" where
  "ai_merge_group ai pystr grp merge_func extraction_type level group_num =
     (if grp = [] then Inr (empty_value extraction_type)
      else if length grp = 1 then Inr (hd grp)
      else try_except
             (case ai level group_num grp of
                AiFailed \<Rightarrow> Inl ServiceError
              | AiEmpty \<Rightarrow> fallback_merge_group pystr grp merge_func extraction_type
              | AiNotJson \<Rightarrow> fallback_merge_group pystr grp merge_func extraction_type
              | AiJson merged_data \<Rightarrow> Inr merged_data)
             (\<lambda>e. fallback_merge_group pystr grp merge_func extraction_type))"

text \<open>\<^verbatim>\<open>range(0, n, step)\<close> for a positive step.\<close>

definition range_step :: "nat \<Rightarrow> nat \<Rightarrow> nat list" where
  "range_step n step = map (\<lambda>k. k * step) [0..<(n + step - 1) div step]"

text \<open>
  One level: the \<^verbatim>\<open>for i in range(0, len(current_results), group_size)\<close> loop. A
  merged result that is \<^verbatim>\<open>None\<close> is not appended.
\<close>

fun merge_groups ::
  "ai_service \<Rightarrow> (json \<Rightarrow> string) \<Rightarrow> merge_func \<Rightarrow> string \<Rightarrow> nat \<Rightarrow> nat
     \<Rightarrow> json list \<Rightarrow> nat list \<Rightarrow> error + json list" where
  "merge_groups ai pystr merge_func extraction_type level group_size current_results [] = Inr []"
| "merge_groups ai pystr merge_func extraction_type level group_size current_results (i # starts) =
     and_then
       (ai_merge_group ai pystr (take group_size (drop i current_results)) merge_func
          extraction_type level (i div group_size + 1))
       (\<lambda>merged_result.
          and_then
            (merge_groups ai pystr merge_func extraction_type level group_size
               current_results starts)
            (\<lambda>next_level_results.
               Inr (if merged_result \<noteq> JNull then merged_result # next_level_results
                    else next_level_results)))"

text \<open>
  The \<^verbatim>\<open>while len(current_results) > 1\<close> loop. Nothing in the code bounds it, so it
  is a partial function: \<open>None\<close> is a loop that never ends, \<open>Some (Inl e)\<close> an
  exception that leaves the method, \<open>Some (Inr v)\<close> the returned value. A zero
  \<^verbatim>\<open>group_size\<close> makes \<^verbatim>\<open>range\<close> raise \<^verbatim>\<open>ValueError\<close>; a negative one makes the
  range empty.
\<close>

partial_function (option) merge_levels ::
  "ai_service \<Rightarrow> (json \<Rightarrow> string) \<Rightarrow> merge_func \<Rightarrow> string \<Rightarrow> int \<Rightarrow> nat
     \<Rightarrow> json list \<Rightarrow> (error + json) option" where
  "merge_levels ai pystr merge_func extraction_type group_size level current_results =
     (if length current_results > 1 then
        (if group_size = 0 then Some (Inl ValueError)
         else
           (let next_level =
                  (if group_size < 0 then Inr []
                   else merge_groups ai pystr merge_func extraction_type level (nat group_size)
                          current_results
                          (range_step (length current_results) (nat group_size)))
            in if isl next_level then Some (Inl (projl next_level))
               else merge_levels ai pystr merge_func extraction_type group_size (level + 1)
                      (projr next_level)))
      else Some (Inr (case current_results of
                        [] \<Rightarrow> empty_value extraction_type
                      | r # _ \<Rightarrow> r)))"

text \<open>\<^verbatim>\<open>_hierarchical_merge_results\<close>; the source's default \<^verbatim>\<open>group_size\<close> is 4.\<close>

definition hierarchical_merge_results ::
  "ai_service \<Rightarrow> (json \<Rightarrow> string) \<Rightarrow> json list \<Rightarrow> merge_func \<Rightarrow> string \<Rightarrow> int
     \<Rightarrow> (error + json) option" where
  "hierarchical_merge_results ai pystr results merge_func extraction_type group_size =
     (if results = [] then Some (Inr (empty_value extraction_type))
      else if length results = 1 then Some (Inr (hd results))
      else merge_levels ai pystr merge_func extraction_type group_size 1 results)"

section \<open>Text segmentation (knowledge\_parser.py, lines 77--174)\<close>

text \<open>
  Python's \<^verbatim>\<open>str.strip()\<close> and \<^verbatim>\<open>str.split()\<close> without arguments work on the
  characters for which \<^verbatim>\<open>str.isspace\<close> holds; below code point 256 these are
  U+0009--U+000D, U+001C--U+0020, U+0085 and U+00A0.
\<close>

definition is_space :: "char \<Rightarrow> bool" where
  "is_space c = ((of_char c :: nat) \<in> {9, 10, 11, 12, 13, 28, 29, 30, 31, 32, 133, 160})"

definition strip :: "string \<Rightarrow> string" where
  "strip s = rev (dropWhile is_space (rev (dropWhile is_space s)))"

text \<open>
  \<^verbatim>\<open>content.split()\<close>: the maximal runs of non-space characters, in order. The first
  argument is the word being read.
\<close>

fun split_words :: "string \<Rightarrow> string \<Rightarrow> string list" where
  "split_words word [] = (if word = [] then [] else [word])"
| "split_words word (c # cs) =
     (if is_space c then (if word = [] then split_words [] cs else word # split_words [] cs)
      else split_words (word @ [c]) cs)"

text \<open>
  \<^verbatim>\<open>sep.join(pieces)\<close>.
\<close>

fun join :: "string \<Rightarrow> string list \<Rightarrow> string" where
  "join sep [] = []"
| "join sep [piece] = piece"
| "join sep (piece # pieces) = piece @ sep @ join sep pieces"

text \<open>
  \<^verbatim>\<open>preprocess_text\<close>: \<^verbatim>\<open>' '.join(content.split())\<close>, and the empty string for a blank text.
\<close>

definition preprocess_text :: "string \<Rightarrow> string" where
  "preprocess_text content =
     (if content = [] \<or> strip content = [] then []
      else join '' '' (split_words [] content))"

text \<open>
  A chunk, as \<^verbatim>\<open>split_text_into_segments\<close> builds it: a dict with exactly these five
  keys (the key \<^verbatim>\<open>text\<close> is the field \<open>text_field\<close>). Readers use
  \<^verbatim>\<open>segment.get("order", 0)\<close>; the key is always present.
\<close>

record segment =
  text_field :: string
  order :: int
  start_pos :: nat
  end_pos :: nat
  segment_id :: string

text \<open>
  The format \<^verbatim>\<open>f"seg_{segment_count:03d}"\<close>: the decimal digits, padded with zeros to
  three places.
\<close>

fun decimal :: "nat \<Rightarrow> string" where
  "decimal n = (if n < 10 then [char_of (48 + n)] else decimal (n div 10) @ [char_of (48 + n mod 10)])"

declare decimal.simps [simp del]

definition segment_id_of :: "nat \<Rightarrow> string" where
  "segment_id_of segment_count =
     ''seg_'' @ replicate (3 - length (decimal segment_count)) (CHR ''0'') @ decimal segment_count"

text \<open>
  The search for the split point among the tokens of a chunk. The source compares
  \<^verbatim>\<open>total_length + len(word) > segment_size * 0.9\<close> in floating point; the model
  compares \<open>10 * (total_length + length word) > 9 * segment_size\<close> exactly, which
  is the same test for every size an IEEE double represents exactly with its tenth
  (all sizes in use, 50000 and the small sizes of the tests included). When the loop
  ends without \<^verbatim>\<open>break\<close> the split point stays 0.
\<close>

fun find_split :: "nat \<Rightarrow> nat \<Rightarrow> string list \<Rightarrow> nat" where
  "find_split segment_size total_length [] = 0"
| "find_split segment_size total_length (word # words) =
     (if 10 * (total_length + length word) > 9 * segment_size then total_length
      else find_split segment_size (total_length + length word) words)"

text \<open>
  \<^verbatim>\<open>jieba.cut\<close> is an external library: a parameter that returns the tokens of a
  text, or \<open>None\<close> when it raises.
\<close>

type_synonym tokenizer = "string \<Rightarrow> string list option"

text \<open>
  The loop inside the \<^verbatim>\<open>try\<close>: the cursor \<open>i\<close> runs over
  \<^verbatim>\<open>range(0, len(content), segment_size)\<close> whatever the split point was; a chunk
  that is not the last one is cut back to \<^verbatim>\<open>content[i:i + split_point]\<close> when the
  split point is positive.
\<close>

fun smart_loop ::
  "tokenizer \<Rightarrow> string \<Rightarrow> nat \<Rightarrow> segment list \<Rightarrow> nat \<Rightarrow> nat list \<Rightarrow> error + segment list" where
  "smart_loop jieba_cut content segment_size segments segment_count [] = Inr segments"
| "smart_loop jieba_cut content segment_size segments segment_count (i # starts) =
     (let segment = take segment_size (drop i content) in
      and_then
        (if i + segment_size < length content then
           (case jieba_cut segment of
              None \<Rightarrow> Inl ServiceError
            | Some words \<Rightarrow>
                (let split_point = (if length words > 1 then find_split segment_size 0 words else 0)
                 in Inr (if split_point > 0
                         then (take split_point (drop i content), i + split_point)
                         else (segment, i + length segment))))
         else Inr (segment, i + length segment))
        (\<lambda>(segment, actual_end).
           if strip segment \<noteq> []
           then smart_loop jieba_cut content segment_size
                  (segments @
                     [\<lparr>text_field = strip segment, order = int (segment_count + 1), start_pos = i,
                       end_pos = actual_end, segment_id = segment_id_of (segment_count + 1)\<rparr>])
                  (segment_count + 1) starts
           else smart_loop jieba_cut content segment_size segments segment_count starts))"

text \<open>
  The loop of the \<^verbatim>\<open>except\<close> branch: fixed slices.
\<close>

fun simple_loop :: "string \<Rightarrow> nat \<Rightarrow> segment list \<Rightarrow> nat \<Rightarrow> nat list \<Rightarrow> segment list" where
  "simple_loop content segment_size segments segment_count [] = segments"
| "simple_loop content segment_size segments segment_count (i # starts) =
     (let segment = take segment_size (drop i content) in
      if strip segment \<noteq> []
      then simple_loop content segment_size
             (segments @
                [\<lparr>text_field = strip segment, order = int (segment_count + 1), start_pos = i,
                  end_pos = min (i + segment_size) (length content),
                  segment_id = segment_id_of (segment_count + 1)\<rparr>])
             (segment_count + 1) starts
      else simple_loop content segment_size segments segment_count starts)"

text \<open>
  \<^verbatim>\<open>range(0, n, step)\<close> for an integer step: a zero step raises \<^verbatim>\<open>ValueError\<close>, a
  negative one gives the empty range.
\<close>

definition py_range :: "nat \<Rightarrow> int \<Rightarrow> error + nat list" where
  "py_range n step =
     (if step = 0 then Inl ValueError
      else if step < 0 then Inr []
      else Inr (range_step n (nat step)))"

text \<open>
  \<^verbatim>\<open>split_text_into_segments(content, segment_size)\<close>. Any exception of the smart
  loop (here: of the tokenizer or of \<^verbatim>\<open>range\<close>) discards its chunks and runs the
  simple loop.
\<close>

definition split_text_into_segments :: "tokenizer \<Rightarrow> string \<Rightarrow> int \<Rightarrow> error + segment list" where
  "split_text_into_segments jieba_cut content segment_size =
     (if content = [] \<or> strip content = [] then Inr []
      else if int (length content) \<le> segment_size
      then Inr [\<lparr>text_field = content, order = 1, start_pos = 0, end_pos = length content,
                 segment_id = ''seg_001''\<rparr>]
      else try_except
             (and_then (py_range (length content) segment_size)
                (smart_loop jieba_cut content (nat segment_size) [] 0))
             (\<lambda>e. and_then (py_range (length content) segment_size)
                     (\<lambda>starts. Inr (simple_loop content (nat segment_size) [] 0 starts))))"

section \<open>Concurrent dispatch (knowledge\_parser.py, lines 559--590)\<close>

text \<open>
  One task per chunk is submitted to the pool. What the collecting loop sees of a
  task is whether \<^verbatim>\<open>future.result()\<close> raised or what it returned (\<^verbatim>\<open>None\<close> is
  \<open>JNull\<close>). The pool's scheduling shows only in the order in which
  \<^verbatim>\<open>as_completed\<close> yields the futures, so that order is an argument: the list
  \<open>completed\<close> of futures, each with the chunk \<^verbatim>\<open>future_to_segment\<close> maps it to.
\<close>

datatype task_outcome = Raised | Returned json

type_synonym future = "segment \<times> task_outcome"

text \<open>
  The loop over \<^verbatim>\<open>as_completed\<close>, filling \<^verbatim>\<open>results_dict\<close>.
\<close>

fun collect_results :: "(int \<rightharpoonup> json) \<Rightarrow> future list \<Rightarrow> (int \<rightharpoonup> json)" where
  "collect_results results_dict [] = results_dict"
| "collect_results results_dict ((segment, outcome) # completed) =
     collect_results
       (case outcome of
          Returned result \<Rightarrow>
            if result \<noteq> JNull then results_dict(order segment \<mapsto> result) else results_dict
        | Raised \<Rightarrow> results_dict)
       completed"

text \<open>
  \<^verbatim>\<open>_process_segment_concurrently\<close>, from the creation of the pool on.
  \<^verbatim>\<open>ThreadPoolExecutor\<close> raises \<^verbatim>\<open>ValueError\<close> for \<^verbatim>\<open>max_workers <= 0\<close>. The second
  loop walks the chunks in their given order.
\<close>

definition process_segment_concurrently :: "int \<Rightarrow> segment list \<Rightarrow> future list \<Rightarrow> error + json list" where
  "process_segment_concurrently max_concurrent_requests segments completed =
     (if max_concurrent_requests \<le> 0 then Inl ValueError
      else (let results_dict = collect_results Map.empty completed
            in Inr (List.map_filter (\<lambda>segment. results_dict (order segment)) segments)))"

section \<open>Retry wrapper (common.py, lines 45--91)\<close>

text \<open>
  \<^verbatim>\<open>s.replace(old, "")\<close>: the occurrences of \<open>old\<close> are removed from left to right, without overlap.
\<close>

fun remove_all :: "string \<Rightarrow> string \<Rightarrow> string" where
  "remove_all old [] = []"
| "remove_all old (c # cs) =
     (if old \<noteq> [] \<and> prefix old (c # cs)
      then remove_all old (drop (length old) (c # cs))
      else c # remove_all old cs)"

text \<open>
  The cleaning of a reply: both fence markers removed, then \<^verbatim>\<open>strip()\<close>.
\<close>

definition clean :: "string \<Rightarrow> string" where
  "clean result = strip (remove_all ''```'' (remove_all ''```json'' result))"

text \<open>
  The adapter is outside the repository: \<^verbatim>\<open>llm_adapter.invoke(prompt)\<close> raises or
  returns a text. It is a function of the prompt and of the number of calls made
  before, so that it may answer every attempt differently.
\<close>

datatype llm_reply = Raises | Replies string

text \<open>
  The function reports on the standard output with \<^verbatim>\<open>print\<close>. The stream is outside
  the repository too, and a \<^verbatim>\<open>print\<close> raises when the stream cannot take the text
  (\<^verbatim>\<open>UnicodeEncodeError\<close> when its encoding has no code for a character). What is
  printed is a text of the model (the prompt, a reply, a ruler of ASCII characters) or
  one of the fixed messages of the source, which are not ASCII: the two banners, the
  mark printed for an empty reply, the notice of a failed attempt (with the counters
  and the text of the exception) and the final notice that all attempts failed. The
  stream is the parameter \<open>out\<close>, which says of every printed item whether the call
  returns.
\<close>

datatype printed =
    Text string
  | PromptBanner
  | ReplyBanner
  | EmptyReplyMark
  | FailureNotice nat int
  | GiveUpNotice int

type_synonym stdout = "printed \<Rightarrow> bool"

text \<open>
  The calls of the adapter, of \<^verbatim>\<open>time.sleep\<close> and of \<^verbatim>\<open>print\<close> are recorded as
  events, in order; a \<^verbatim>\<open>print\<close> that raises is recorded too.
\<close>

datatype event = Invoke nat | Sleep nat | Print printed

text \<open>Consecutive \<^verbatim>\<open>print\<close> statements: the first one that raises ends them.\<close>

fun print_all :: "stdout \<Rightarrow> printed list \<Rightarrow> (error + unit) \<times> event list" where
  "print_all out [] = (Inr (), [])"
| "print_all out (p # ps) =
     (if out p
      then (case print_all out ps of (r, events) \<Rightarrow> (r, Print p # events))
      else (Inl UnicodeEncodeError, [Print p]))"

definition ruler :: "char \<Rightarrow> string" where
  "ruler c = replicate 50 c"

text \<open>The five lines printed before the loop (lines 47--51), outside every \<^verbatim>\<open>try\<close>.\<close>

definition prompt_lines :: "string \<Rightarrow> printed list" where
  "prompt_lines prompt =
     [Text (CHR 0x0A # ruler (CHR ''='')), PromptBanner, Text (ruler (CHR ''-'')),
      Text prompt, Text (ruler (CHR ''='') @ [CHR 0x0A])]"

text \<open>
  The five lines printed after the adapter has returned (lines 60--64), inside the
  \<^verbatim>\<open>try\<close>: \<^verbatim>\<open>print(result if result else "[...]")\<close> in the fourth.
\<close>

definition reply_lines :: "string \<Rightarrow> printed list" where
  "reply_lines result =
     [Text (CHR 0x0A # ruler (CHR ''='')), ReplyBanner, Text (ruler (CHR ''-'')),
      (if result \<noteq> [] then Text result else EmptyReplyMark),
      Text (ruler (CHR ''='') @ [CHR 0x0A])]"

text \<open>
  What one pass through the loop body ends in: a \<^verbatim>\<open>return\<close>, or the next pass with
  the new values of \<^verbatim>\<open>result\<close> and \<^verbatim>\<open>last_error\<close> (whether it is set).
\<close>

datatype attempt = Return string | Retry string bool

text \<open>
  The \<^verbatim>\<open>except Exception\<close> handler (lines 78--84): it sets \<^verbatim>\<open>last_error\<close>, leaves
  \<^verbatim>\<open>result\<close> as it is, and prints the notice; this \<^verbatim>\<open>print\<close> is covered by no
  \<^verbatim>\<open>try\<close>, so an exception of it leaves the function.
\<close>

definition failed_attempt ::
  "stdout \<Rightarrow> nat \<Rightarrow> int \<Rightarrow> string \<Rightarrow> (error + attempt) \<times> event list" where
  "failed_attempt out retry_count max_retries result =
     (case print_all out [FailureNotice (retry_count + 1) max_retries] of
        (Inl e, events) \<Rightarrow> (Inl e, events)
      | (Inr u, events) \<Rightarrow> (Inr (Retry result True), events))"

text \<open>
  The body of the loop. The \<^verbatim>\<open>try\<close> block assigns the reply to \<^verbatim>\<open>result\<close>, prints
  it, and either returns the cleaned, non-empty result or falls through to the retry
  bookkeeping with the cleaned (empty) result. An exception of the adapter or of one
  of the \<^verbatim>\<open>print\<close> statements goes to the handler; in the second case \<^verbatim>\<open>result\<close>
  already holds the reply, not cleaned.
\<close>

definition one_attempt ::
  "stdout \<Rightarrow> llm_reply \<Rightarrow> nat \<Rightarrow> int \<Rightarrow> string \<Rightarrow> bool
     \<Rightarrow> (error + attempt) \<times> event list" where
  "one_attempt out reply retry_count max_retries result last_error =
     (case reply of
        Raises \<Rightarrow> failed_attempt out retry_count max_retries result
      | Replies r \<Rightarrow>
          (case print_all out (reply_lines r) of
             (Inl e, events) \<Rightarrow>
               (case failed_attempt out retry_count max_retries r of
                  (a, events') \<Rightarrow> (a, events @ events'))
           | (Inr u, events) \<Rightarrow>
               (let result' = (if r \<noteq> [] then clean r else r)
                in (Inr (if r \<noteq> [] \<and> result' \<noteq> [] then Return result'
                         else Retry result' last_error),
                    events))))"

text \<open>
  The \<^verbatim>\<open>while retry_count < max_retries\<close> loop, which sleeps two seconds only when
  another attempt follows, and the lines after it (86--91): the final notice is
  printed when \<^verbatim>\<open>last_error\<close> is set, outside every \<^verbatim>\<open>try\<close>.
\<close>

function invoke_loop ::
  "stdout \<Rightarrow> (string \<Rightarrow> nat \<Rightarrow> llm_reply) \<Rightarrow> string \<Rightarrow> int \<Rightarrow> nat \<Rightarrow> string \<Rightarrow> bool
     \<Rightarrow> (error + string) \<times> event list" where
  "invoke_loop out llm_adapter prompt max_retries retry_count result last_error =
     (if int retry_count < max_retries then
        (case one_attempt out (llm_adapter prompt retry_count) retry_count max_retries
                result last_error of
           (Inl e, events) \<Rightarrow> (Inl e, Invoke retry_count # events)
         | (Inr (Return result'), events) \<Rightarrow> (Inr result', Invoke retry_count # events)
         | (Inr (Retry result' last_error'), events) \<Rightarrow>
             (case invoke_loop out llm_adapter prompt max_retries (retry_count + 1)
                     result' last_error' of
                (r, rest) \<Rightarrow>
                  (r, Invoke retry_count # events
                        @ (if int retry_count + 1 < max_retries then [Sleep 2] else [])
                        @ rest)))
      else if last_error then
        (case print_all out [GiveUpNotice max_retries] of
           (Inl e, events) \<Rightarrow> (Inl e, events)
         | (Inr u, events) \<Rightarrow> (Inr result, events))
      else (Inr result, []))"
  by pat_completeness auto
termination
  by (relation "measure (\<lambda>(out, a, p, m, r, res, le). nat (m - int r))") auto

declare invoke_loop.simps [simp del]

text \<open>
  \<^verbatim>\<open>invoke_with_cleaning(llm_adapter, prompt, max_retries=3)\<close>.
\<close>

definition invoke_with_cleaning ::
  "stdout \<Rightarrow> (string \<Rightarrow> nat \<Rightarrow> llm_reply) \<Rightarrow> string \<Rightarrow> int
     \<Rightarrow> (error + string) \<times> event list" where
  "invoke_with_cleaning out llm_adapter prompt max_retries =
     (case print_all out (prompt_lines prompt) of
        (Inl e, events) \<Rightarrow> (Inl e, events)
      | (Inr u, events) \<Rightarrow>
          (case invoke_loop out llm_adapter prompt max_retries 0 [] False of
             (r, rest) \<Rightarrow> (r, events @ rest)))"

section \<open>Context retriever (knowledge\_parser.py, lines 408--435)\<close>

text \<open>
  The similarity index is outside the repository:
  \<^verbatim>\<open>similarity_search(query, k)\<close> raises or returns documents, of which the code
  reads \<^verbatim>\<open>page_content\<close>. \<^verbatim>\<open>self.vector_store\<close> is \<^verbatim>\<open>None\<close> when no index is attached.
\<close>

type_synonym vector_store = "string \<Rightarrow> int \<Rightarrow> error + string list"

text \<open>
  \<^verbatim>\<open>extract_with_vector_context(content, query, top_k)\<close>.
\<close>

definition extract_with_vector_context ::
  "vector_store option \<Rightarrow> string \<Rightarrow> string \<Rightarrow> int \<Rightarrow> error + string" where
  "extract_with_vector_context store content query top_k =
     (case store of
        None \<Rightarrow> Inr (take 2000 content)
      | Some similarity_search \<Rightarrow>
          try_except
            (and_then (similarity_search query top_k)
               (\<lambda>context_pieces. Inr (join [CHR 0x0A, CHR 0x0A] context_pieces)))
            (\<lambda>e. Inr (take 2000 content)))"

section \<open>The three extraction pipelines (knowledge\_parser.py, lines 592--726)\<close>





section \<open>Notions used in the statements\<close>

text \<open>
  What a finished task contributes to \<^verbatim>\<open>results_dict\<close>: its result when
  \<^verbatim>\<open>future.result()\<close> returned one that is not \<^verbatim>\<open>None\<close>, nothing otherwise. (Used to
  state what the dispatcher returns.)
\<close>

definition non_null_result :: "task_outcome \<Rightarrow> json option" where
  "non_null_result outcome =
     (case outcome of
        Returned result \<Rightarrow> if result \<noteq> JNull then Some result else None
      | Raised \<Rightarrow> None)"




text \<open>
  A character entry as \<^verbatim>\<open>_merge_character_lists\<close> expects it, a dict whose name can be
  hashed; and a result whose entries, if it is a list, are all such entries. A result
  that is not a list is skipped by the structural fallback for characters.
\<close>

definition character_entry :: "json \<Rightarrow> bool" where
  "character_entry c =
     (case c of JDict d \<Rightarrow> hashable (dict_get d ''name'' (JStr '''')) | _ \<Rightarrow> False)"

definition well_formed :: "json \<Rightarrow> bool" where
  "well_formed v = (case v of JList cs \<Rightarrow> list_all character_entry cs | _ \<Rightarrow> True)"

text \<open>
  For stating the contract of the retry wrapper: the cleaned text of a reply (empty
  for a raised error, so an attempt fails exactly when this is empty); the events of
  \<open>k\<close> attempts with a two-second sleep between consecutive ones; the adapter calls
  and sleeps among some events, in order; the number of adapter calls among them;
  and that every \<^verbatim>\<open>print\<close> among them returned.
\<close>

definition cleaned_reply :: "llm_reply \<Rightarrow> string" where
  "cleaned_reply reply = (case reply of Raises \<Rightarrow> [] | Replies r \<Rightarrow> clean r)"

fun attempts_trace :: "nat \<Rightarrow> event list" where
  "attempts_trace 0 = []"
| "attempts_trace (Suc 0) = [Invoke 0]"
| "attempts_trace (Suc (Suc n)) = attempts_trace (Suc n) @ [Sleep 2, Invoke (Suc n)]"

definition timeline :: "event list \<Rightarrow> event list" where
  "timeline events = filter (\<lambda>e. case e of Print p \<Rightarrow> False | _ \<Rightarrow> True) events"

definition calls :: "event list \<Rightarrow> nat" where
  "calls events = length (filter (\<lambda>e. case e of Invoke k \<Rightarrow> True | _ \<Rightarrow> False) events)"

definition all_printed :: "stdout \<Rightarrow> event list \<Rightarrow> bool" where
  "all_printed out events = list_all (\<lambda>e. case e of Print p \<Rightarrow> out p | _ \<Rightarrow> True) events"

section \<open>Verified properties\<close>

subsection \<open>Structural merge of character lists\<close>

text \<open>
  Claim C5. Merging \<^verbatim>\<open>[{"name":"A","age":25}]\<close> with
  \<^verbatim>\<open>[{"name":"A","description":"hero"}]\<close> through \<open>merge_character_lists\<close> returns
  a list of exactly one entry, at the position of the existing entry, that holds the
  name, the age and the description; merging \<^verbatim>\<open>[{"name":"A"}]\<close> with
  \<^verbatim>\<open>[{"name":"B"}]\<close> returns both entries, the existing one first.
\<close>

theorem merge_character_lists_dedup:
  "merge_character_lists pystr
     [JDict [(''name'', JStr ''A''), (''age'', JInt 25)]]
     [JDict [(''name'', JStr ''A''), (''description'', JStr ''hero'')]]
   = Inr [JDict [(''name'', JStr ''A''), (''age'', JInt 25), (''description'', JStr ''hero'')]]
   \<and> merge_character_lists pystr
       [JDict [(''name'', JStr ''A'')]] [JDict [(''name'', JStr ''B'')]]
     = Inr [JDict [(''name'', JStr ''A'')], JDict [(''name'', JStr ''B'')]]"
  by (simp add: merge_character_lists_def and_then_def py_get_def dict_get_def
        in_names_def py_eq_def)

subsection \<open>Context retriever\<close>

text \<open>
  Claim C8. Without a similarity index \<open>extract_with_vector_context\<close> returns the
  first 2000 characters of the chunk text; with an index whose query raises it returns
  the same prefix; and whatever the index does, the call returns a text: it never
  raises.
\<close>

theorem context_fallback:
  "extract_with_vector_context None content query top_k = Inr (take 2000 content)
   \<and> (similarity_search query top_k = Inl e \<longrightarrow>
        extract_with_vector_context (Some similarity_search) content query top_k
          = Inr (take 2000 content))
   \<and> (\<exists>context. extract_with_vector_context store content query top_k = Inr context)"
  by (auto simp: extract_with_vector_context_def try_except_def and_then_def
      split: option.splits sum.splits)

theorem context_fallback_witness:
  "extract_with_vector_context (Some (\<lambda>q k. Inl ServiceError)) (replicate 2500 (CHR ''x'')) ''plot'' 8
     = Inr (replicate 2000 (CHR ''x''))"
  using context_fallback [of "replicate 2500 (CHR ''x'')" "''plot''" 8 "\<lambda>q k. Inl ServiceError" ServiceError]
  by simp

subsection \<open>Concurrent dispatch\<close>

lemma collect_results_step:
  "collect_results d ((s, outcome) # completed) =
     collect_results (case non_null_result outcome of Some v \<Rightarrow> d(order s \<mapsto> v) | None \<Rightarrow> d) completed"
  by (simp add: non_null_result_def split: task_outcome.splits)

lemma collect_results_other:
  "k \<notin> order ` fst ` set completed \<Longrightarrow> collect_results d completed k = d k"
proof (induction completed arbitrary: d)
  case Nil
  then show ?case by simp
next
  case (Cons f completed)
  obtain s outcome where f: "f = (s, outcome)" by (cases f)
  from Cons.prems f have k: "k \<noteq> order s" "k \<notin> order ` fst ` set completed" by auto
  show ?case
    unfolding f collect_results_step
    using k by (simp add: Cons.IH split: option.splits)
qed

lemma collect_results_member:
  "distinct (map (order \<circ> fst) completed) \<Longrightarrow> (s, outcome) \<in> set completed \<Longrightarrow>
   collect_results d completed (order s)
     = (case non_null_result outcome of Some v \<Rightarrow> Some v | None \<Rightarrow> d (order s))"
proof (induction completed arbitrary: d)
  case Nil
  then show ?case by simp
next
  case (Cons f completed)
  obtain s' outcome' where f: "f = (s', outcome')" by (cases f)
  show ?case
  proof (cases "(s, outcome) = f")
    case True
    with f have eq: "s' = s" "outcome' = outcome" by auto
    from Cons.prems(1) f eq have "order s \<notin> order ` fst ` set completed"
      by (auto simp: image_iff)
    then show ?thesis
      unfolding f eq collect_results_step
      by (simp add: collect_results_other split: option.splits)
  next
    case False
    with Cons.prems(2) have mem: "(s, outcome) \<in> set completed" by auto
    from Cons.prems(1) f mem have ne: "order s' \<noteq> order s"
      by (force simp: image_iff)
    from Cons.prems(1) have "distinct (map (order \<circ> fst) completed)"
      by (simp add: comp_def)
    from Cons.IH [OF this mem] ne show ?thesis
      unfolding f collect_results_step
      by (simp split: option.splits)
  qed
qed

lemma dispatch_lookup:
  assumes len: "length outcomes = length segments"
    and dist: "distinct (map order segments)"
    and perm: "mset completed = mset (zip segments outcomes)"
  shows "map (\<lambda>segment. collect_results Map.empty completed (order segment)) segments
           = map non_null_result outcomes"
proof (rule nth_equalityI)
  show "length (map (\<lambda>segment. collect_results Map.empty completed (order segment)) segments)
          = length (map non_null_result outcomes)"
    using len by simp
next
  fix i
  assume "i < length (map (\<lambda>segment. collect_results Map.empty completed (order segment)) segments)"
  then have i: "i < length segments" by simp
  have "map (order \<circ> fst) (zip segments outcomes) = map order segments"
    using len by (simp add: map_fst_zip flip: map_map)
  then have "distinct (map (order \<circ> fst) (zip segments outcomes))"
    using dist by simp
  moreover have "mset (map (order \<circ> fst) completed) = mset (map (order \<circ> fst) (zip segments outcomes))"
    using perm by (metis mset_map)
  ultimately have d: "distinct (map (order \<circ> fst) completed)"
    by (metis mset_eq_imp_distinct_iff)
  have "(segments ! i, outcomes ! i) \<in> set (zip segments outcomes)"
    using i len by (metis in_set_zip fst_conv snd_conv)
  then have "(segments ! i, outcomes ! i) \<in> set completed"
    using perm by (metis mset_eq_setD)
  from collect_results_member [OF d this, of Map.empty]
  show "map (\<lambda>segment. collect_results Map.empty completed (order segment)) segments ! i
          = map non_null_result outcomes ! i"
    using i len by (simp split: option.splits)
qed

lemma map_filter_as_map: "List.map_filter f xs = List.map_filter id (map f xs)"
  by (induction xs) (simp_all add: List.map_filter_simps split: option.splits)

text \<open>
  Claim C1. Let the chunks carry the orders 1..N, let every chunk have one task with
  an arbitrary outcome, and let the tasks complete in an arbitrary order (any
  permutation of the futures). For every pool size of at least 1,
  \<open>process_segment_concurrently\<close> returns exactly the results that are not null, one
  per surviving chunk and nothing for a chunk whose task raised or returned null, in
  the order of the chunks; the orders of the surviving chunks increase strictly.
\<close>

theorem dispatch_order_preserving:
  assumes "length outcomes = length segments"
    and "map order segments = map int [1..<Suc (length segments)]"
    and "mset completed = mset (zip segments outcomes)"
    and "1 \<le> max_concurrency"
  shows "process_segment_concurrently max_concurrency segments completed
           = Inr (List.map_filter (non_null_result \<circ> snd) (zip segments outcomes))
       \<and> sorted_wrt (<)
           (map (order \<circ> fst)
              (filter (\<lambda>f. non_null_result (snd f) \<noteq> None) (zip segments outcomes)))"
proof
  have inj: "inj int" by (simp add: inj_on_def)
  have dist: "distinct (map order segments)"
    unfolding assms(2) by (simp add: distinct_map inj_on_def)
  have "List.map_filter (\<lambda>segment. collect_results Map.empty completed (order segment)) segments
          = List.map_filter id (map non_null_result outcomes)"
    using dispatch_lookup [OF assms(1) dist assms(3)] map_filter_as_map by metis
  also have "\<dots> = List.map_filter (non_null_result \<circ> snd) (zip segments outcomes)"
    using assms(1)
    by (metis map_filter_as_map map_snd_zip map_map)
  finally show "process_segment_concurrently max_concurrency segments completed
           = Inr (List.map_filter (non_null_result \<circ> snd) (zip segments outcomes))"
    using assms(4) by (simp add: process_segment_concurrently_def)
next
  have "sorted_wrt (<) [1..<Suc (length segments)]"
    by (rule sorted_wrt_upt)
  then have "sorted_wrt (<) (map order segments)"
    unfolding assms(2) by (simp add: sorted_wrt_map del: upt_Suc)
  then have "sorted_wrt (<) (map (order \<circ> fst) (zip segments outcomes))"
    using assms(1) by (simp add: map_fst_zip flip: map_map)
  then have "sorted_wrt (\<lambda>a b. (order \<circ> fst) a < (order \<circ> fst) b) (zip segments outcomes)"
    by (simp add: sorted_wrt_map)
  then have "sorted_wrt (\<lambda>a b. (order \<circ> fst) a < (order \<circ> fst) b)
               (filter (\<lambda>f. non_null_result (snd f) \<noteq> None) (zip segments outcomes))"
    by (rule sorted_wrt_filter)
  then show "sorted_wrt (<)
           (map (order \<circ> fst)
              (filter (\<lambda>f. non_null_result (snd f) \<noteq> None) (zip segments outcomes)))"
    by (simp add: sorted_wrt_map)
qed


theorem dispatch_order_preserving_witness:
  "process_segment_concurrently 2
     [\<lparr>text_field = ''one'', order = 1, start_pos = 0, end_pos = 3, segment_id = ''seg_001''\<rparr>,
      \<lparr>text_field = ''two'', order = 2, start_pos = 3, end_pos = 6, segment_id = ''seg_002''\<rparr>,
      \<lparr>text_field = ''six'', order = 3, start_pos = 6, end_pos = 9, segment_id = ''seg_003''\<rparr>]
     [(\<lparr>text_field = ''six'', order = 3, start_pos = 6, end_pos = 9, segment_id = ''seg_003''\<rparr>,
         Returned (JStr ''third'')),
      (\<lparr>text_field = ''two'', order = 2, start_pos = 3, end_pos = 6, segment_id = ''seg_002''\<rparr>,
         Raised),
      (\<lparr>text_field = ''one'', order = 1, start_pos = 0, end_pos = 3, segment_id = ''seg_001''\<rparr>,
         Returned (JStr ''first''))]
   = Inr [JStr ''first'', JStr ''third'']"
  using dispatch_order_preserving
    [of "[Returned (JStr ''first''), Raised, Returned (JStr ''third'')]"
        "[\<lparr>text_field = ''one'', order = 1, start_pos = 0, end_pos = 3, segment_id = ''seg_001''\<rparr>,
          \<lparr>text_field = ''two'', order = 2, start_pos = 3, end_pos = 6, segment_id = ''seg_002''\<rparr>,
          \<lparr>text_field = ''six'', order = 3, start_pos = 6, end_pos = 9, segment_id = ''seg_003''\<rparr>]"
        "[(\<lparr>text_field = ''six'', order = 3, start_pos = 6, end_pos = 9, segment_id = ''seg_003''\<rparr>,
             Returned (JStr ''third'')),
          (\<lparr>text_field = ''two'', order = 2, start_pos = 3, end_pos = 6, segment_id = ''seg_002''\<rparr>,
             Raised),
          (\<lparr>text_field = ''one'', order = 1, start_pos = 0, end_pos = 3, segment_id = ''seg_001''\<rparr>,
             Returned (JStr ''first''))]"
        2]
  by (simp add: non_null_result_def List.map_filter_simps)

subsection \<open>Segmentation of short texts\<close>

text \<open>
  Every text the pipelines pass to the segmenter comes from \<open>preprocess_text\<close>
  and so has no leading or trailing whitespace.
\<close>

lemma strip_trimmed:
  assumes "s \<noteq> []" "\<not> is_space (hd s)" "\<not> is_space (last s)"
  shows "strip s = s"
proof -
  have "dropWhile is_space s = s"
    using assms by (cases s) simp_all
  moreover have "dropWhile is_space (rev s) = rev s"
    using assms by (cases "rev s") (simp, metis dropWhile.simps(2) hd_rev list.sel(1))
  ultimately show ?thesis by (simp add: strip_def)
qed

lemma split_words_clean:
  assumes "x \<in> set (split_words word s)" "\<forall>c \<in> set word. \<not> is_space c"
  shows "x \<noteq> [] \<and> (\<forall>c \<in> set x. \<not> is_space c)"
  using assms
proof (induction s arbitrary: word)
  case Nil
  then show ?case by (auto split: if_splits)
next
  case (Cons a s)
  show ?case
  proof (cases "is_space a")
    case True
    with Cons.prems have "x = word \<and> word \<noteq> [] \<or> x \<in> set (split_words [] s)"
      by (auto split: if_splits)
    then show ?thesis
      using Cons.prems(2) Cons.IH [of "[]"] by auto
  next
    case False
    with Cons.prems have "x \<in> set (split_words (word @ [a]) s)" by simp
    then show ?thesis
      using Cons.IH [of "word @ [a]"] Cons.prems(2) False by auto
  qed
qed

lemma join_ends:
  assumes "pieces \<noteq> []" "\<forall>x \<in> set pieces. x \<noteq> []"
  shows "join sep pieces \<noteq> [] \<and> hd (join sep pieces) = hd (hd pieces)
       \<and> last (join sep pieces) = last (last pieces)"
  using assms by (induction sep pieces rule: join.induct) auto

lemma preprocess_text_trimmed: "strip (preprocess_text content) = preprocess_text content"
proof (cases "preprocess_text content = []")
  case True
  then show ?thesis by (simp add: strip_def)
next
  case False
  let ?ws = "split_words [] content"
  from False have p: "preprocess_text content = join '' '' ?ws" and ne: "?ws \<noteq> []"
    by (auto simp: preprocess_text_def split: if_splits)
  have clean: "\<forall>x \<in> set ?ws. x \<noteq> [] \<and> (\<forall>c \<in> set x. \<not> is_space c)"
    using split_words_clean [of _ "[]" content] by simp
  then have "\<forall>x \<in> set ?ws. x \<noteq> []" by blast
  from join_ends [OF ne this, of "'' ''"]
  have j: "join '' '' ?ws \<noteq> []" "hd (join '' '' ?ws) = hd (hd ?ws)"
    "last (join '' '' ?ws) = last (last ?ws)"
    by blast+
  have "hd ?ws \<in> set ?ws" "last ?ws \<in> set ?ws" using ne by simp_all
  with clean have "\<not> is_space (hd (hd ?ws))" "\<not> is_space (last (last ?ws))"
    by (metis hd_in_set, metis last_in_set)
  with j show ?thesis unfolding p by (intro strip_trimmed) simp_all
qed

text \<open>
  Claim C6, as amended. For every text that is no longer than the chunk size: an empty
  or whitespace-only text gives no chunk; a non-empty text without leading or trailing
  whitespace gives exactly one chunk, whose text is the (trimmed) input, with order 1,
  start position 0, end position \<open>length content\<close> and id \<^verbatim>\<open>seg_001\<close>.
\<close>

theorem short_input_single_chunk:
  assumes "int (length content) \<le> segment_size"
  shows "(strip content = [] \<longrightarrow>
            split_text_into_segments jieba_cut content segment_size = Inr [])
       \<and> (content \<noteq> [] \<and> strip content = content \<longrightarrow>
            split_text_into_segments jieba_cut content segment_size
              = Inr [\<lparr>text_field = strip content, order = 1, start_pos = 0,
                       end_pos = length content, segment_id = ''seg_001''\<rparr>])"
  using assms by (auto simp: split_text_into_segments_def)

theorem short_input_single_chunk_witness:
  "split_text_into_segments (\<lambda>s. None) ''a short text'' 50000
     = Inr [\<lparr>text_field = ''a short text'', order = 1, start_pos = 0, end_pos = 12,
              segment_id = ''seg_001''\<rparr>]
   \<and> split_text_into_segments (\<lambda>s. None) ''   '' 50000 = Inr []"
  using short_input_single_chunk [of "''a short text''" 50000 "\<lambda>s. None"]
    short_input_single_chunk [of "''   ''" 50000 "\<lambda>s. None"]
  by (simp add: strip_def is_space_def)

text \<open>
  The claim as first stated fails: the short path stores the text as it is given, so a
  text with leading whitespace comes back untrimmed, and the empty text gives no chunk
  at all.
\<close>

theorem short_input_not_trimmed:
  "split_text_into_segments (\<lambda>s. None) '' a'' 50000
     = Inr [\<lparr>text_field = '' a'', order = 1, start_pos = 0, end_pos = 2,
              segment_id = ''seg_001''\<rparr>]
   \<and> strip '' a'' = ''a''
   \<and> split_text_into_segments (\<lambda>s. None) '''' 50000 = Inr []"
  by (simp add: split_text_into_segments_def strip_def is_space_def)

subsection \<open>Segmentation of long texts\<close>

lemma segment_id_of_1: "segment_id_of (Suc 0) = ''seg_001''"
  by code_simp

lemma segment_id_of_2: "segment_id_of (Suc (Suc 0)) = ''seg_002''"
  by code_simp

text \<open>
  Claim C4 does not hold of the code. With chunk size 10 the first slice of
  \<^verbatim>\<open>aa bb cc dd ee ff\<close> is \<^verbatim>\<open>aa bb cc d\<close>; the tokenizer returns its words and blanks,
  the split point is 9, and the chunk is cut back to \<^verbatim>\<open>aa bb cc \<close>. The cursor
  still advances by 10, so the character at position 9 is in no chunk: the chunks
  hold eleven of the twelve letters of the text. The branch taken when the tokenizer
  raises keeps the full slices and loses nothing on the same text.
\<close>

theorem shortened_chunk_loses_text:
  "split_text_into_segments
       (\<lambda>segment. Some [''aa'', '' '', ''bb'', '' '', ''cc'', '' '', ''d''])
       ''aa bb cc dd ee ff'' 10
     = Inr [\<lparr>text_field = ''aa bb cc'', order = 1, start_pos = 0, end_pos = 9,
              segment_id = ''seg_001''\<rparr>,
            \<lparr>text_field = ''d ee ff'', order = 2, start_pos = 10, end_pos = 17,
              segment_id = ''seg_002''\<rparr>]
   \<and> filter (\<lambda>c. \<not> is_space c) ''aa bb cc dd ee ff'' = ''aabbccddeeff''
   \<and> filter (\<lambda>c. \<not> is_space c) (''aa bb cc'' @ ''d ee ff'') = ''aabbccdeeff''
   \<and> split_text_into_segments (\<lambda>segment. None) ''aa bb cc dd ee ff'' 10
     = Inr [\<lparr>text_field = ''aa bb cc d'', order = 1, start_pos = 0, end_pos = 10,
              segment_id = ''seg_001''\<rparr>,
            \<lparr>text_field = ''d ee ff'', order = 2, start_pos = 10, end_pos = 17,
              segment_id = ''seg_002''\<rparr>]"
  by (simp add: split_text_into_segments_def strip_def is_space_def py_range_def range_step_def
        try_except_def and_then_def segment_id_of_1 segment_id_of_2 upt_rec)

text \<open>
  The fixed slices of the \<^verbatim>\<open>except\<close> branch cover every text: when the tokenizer
  raises, the chunks hold all characters of the text that are not whitespace, for
  every text and every positive chunk size.
\<close>

lemma filter_dropWhile_spaces:
  "filter (\<lambda>c. \<not> is_space c) (dropWhile is_space s) = filter (\<lambda>c. \<not> is_space c) s"
  by (induction s) simp_all

lemma filter_strip: "filter (\<lambda>c. \<not> is_space c) (strip s) = filter (\<lambda>c. \<not> is_space c) s"
proof -
  have "filter (\<lambda>c. \<not> is_space c) (strip s)
          = rev (filter (\<lambda>c. \<not> is_space c) (dropWhile is_space (rev (dropWhile is_space s))))"
    by (simp add: strip_def rev_filter)
  also have "\<dots> = rev (filter (\<lambda>c. \<not> is_space c) (rev (dropWhile is_space s)))"
    by (simp only: filter_dropWhile_spaces)
  also have "\<dots> = filter (\<lambda>c. \<not> is_space c) (dropWhile is_space s)"
    by (simp add: rev_filter)
  finally show ?thesis by (simp only: filter_dropWhile_spaces)
qed

lemma simple_loop_texts:
  "filter (\<lambda>c. \<not> is_space c)
     (concat (map text_field (simple_loop content segment_size segments segment_count starts)))
   = filter (\<lambda>c. \<not> is_space c) (concat (map text_field segments))
     @ filter (\<lambda>c. \<not> is_space c)
         (concat (map (\<lambda>i. take segment_size (drop i content)) starts))"
proof (induction starts arbitrary: segments segment_count)
  case Nil
  then show ?case by simp
next
  case (Cons i starts)
  show ?case
  proof (cases "strip (take segment_size (drop i content)) = []")
    case True
    then have "filter (\<lambda>c. \<not> is_space c) (take segment_size (drop i content)) = []"
      by (metis filter_strip filter.simps(1))
    with True Cons.IH show ?thesis by (simp add: Let_def)
  next
    case False
    with Cons.IH show ?thesis by (simp add: Let_def filter_strip)
  qed
qed

lemma slices_upto:
  "concat (map (\<lambda>i. take step (drop i xs)) (map (\<lambda>k. k * step) [0..<k])) = take (k * step) xs"
proof (induction k)
  case 0
  then show ?case by simp
next
  case (Suc k)
  have "take (k * step) xs @ take step (drop (k * step) xs) = take (k * step + step) xs"
    by (simp add: take_add)
  with Suc show ?case by (simp add: add.commute)
qed

lemma slices_cover:
  assumes "0 < step"
  shows "concat (map (\<lambda>i. take step (drop i xs)) (range_step (length xs) step)) = xs"
proof -
  have "length xs \<le> (length xs + step - 1) div step * step"
  proof -
    have "(length xs + step - 1) mod step < step" using assms by simp
    moreover have "(length xs + step - 1) div step * step + (length xs + step - 1) mod step
                     = length xs + step - 1"
      by simp
    ultimately show ?thesis by linarith
  qed
  then show ?thesis
    unfolding range_step_def slices_upto by simp
qed

lemma fallback_segmentation_keeps_text:
  assumes "0 < segment_size"
  shows "\<exists>segments. split_text_into_segments (\<lambda>segment. None) content segment_size = Inr segments
           \<and> filter (\<lambda>c. \<not> is_space c) (concat (map text_field segments))
               = filter (\<lambda>c. \<not> is_space c) content"
proof (cases "content = [] \<or> strip content = []")
  case True
  then have "filter (\<lambda>c. \<not> is_space c) content = []"
    by (metis filter_strip filter.simps(1))
  with True show ?thesis by (simp add: split_text_into_segments_def)
next
  case False
  show ?thesis
  proof (cases "int (length content) \<le> segment_size")
    case True
    with False show ?thesis by (simp add: split_text_into_segments_def)
  next
    case long: False
    then have len: "nat segment_size < length content" using assms by simp
    have pos: "0 < nat segment_size" using assms by simp
    have r: "py_range (length content) segment_size
               = Inr (range_step (length content) (nat segment_size))"
      using assms by (simp add: py_range_def)
    have "0 < (length content + nat segment_size - 1) div nat segment_size"
      using len pos by (simp add: div_greater_zero_iff)
    then obtain starts where
      starts: "range_step (length content) (nat segment_size) = 0 # starts"
      unfolding range_step_def by (cases "(length content + nat segment_size - 1) div nat segment_size")
        (simp_all add: upt_rec)
    have smart: "smart_loop (\<lambda>segment. None) content (nat segment_size) [] 0 (0 # starts)
                   = Inl ServiceError"
      using len by (simp add: and_then_def)
    have "split_text_into_segments (\<lambda>segment. None) content segment_size
            = Inr (simple_loop content (nat segment_size) [] 0
                     (range_step (length content) (nat segment_size)))"
      using False long smart
      by (simp add: split_text_into_segments_def r try_except_def and_then_def flip: starts)
    moreover have "filter (\<lambda>c. \<not> is_space c)
        (concat (map text_field (simple_loop content (nat segment_size) [] 0
                     (range_step (length content) (nat segment_size)))))
      = filter (\<lambda>c. \<not> is_space c) content"
      by (simp add: simple_loop_texts slices_cover [OF pos])
    ultimately show ?thesis by simp
  qed
qed

subsection \<open>Hierarchical merge: levels and null answers\<close>

lemma and_then_Inr_iff:
  "and_then r f = Inr y \<longleftrightarrow> (\<exists>v. r = Inr v \<and> f v = Inr y)"
  by (cases r) (simp_all add: and_then_def)

lemma length_range_step: "length (range_step n step) = (n + step - 1) div step"
  by (simp add: range_step_def)

lemma range_step_shrinks:
  fixes n step :: nat
  assumes "2 \<le> step" "2 \<le> n"
  shows "(n + step - 1) div step < n"
proof -
  obtain a b where ab: "n = a + 2" "step = b + 2"
    using assms by (metis add.commute le_Suc_ex)
  have "n + step - 1 < n * step"
    unfolding ab by (simp add: algebra_simps)
  then show ?thesis
    using assms by (simp add: div_less_iff_less_mult)
qed

lemma merge_groups_length:
  "merge_groups ai pystr mf t level gs cur starts = Inr ys \<Longrightarrow> length ys \<le> length starts"
proof (induction starts arbitrary: ys)
  case Nil
  then show ?case by simp
next
  case (Cons i starts)
  from Cons.prems obtain m ms where
    ms: "merge_groups ai pystr mf t level gs cur starts = Inr ms"
    and ys: "ys = (if m \<noteq> JNull then m # ms else ms)"
    by (auto simp: and_then_Inr_iff)
  from Cons.IH [OF ms] ys show ?case by (simp split: if_splits)
qed

lemma merge_levels_terminates:
  assumes "2 \<le> group_size"
  shows "\<exists>r. merge_levels ai pystr mf t group_size level cur = Some r"
proof (induction "length cur" arbitrary: cur level rule: less_induct)
  case less
  show ?case
  proof (cases "1 < length cur")
    case False
    then show ?thesis by (subst merge_levels.simps) simp
  next
    case True
    let ?next = "merge_groups ai pystr mf t level (nat group_size) cur
                   (range_step (length cur) (nat group_size))"
    show ?thesis
    proof (cases ?next)
      case (Inl e)
      then show ?thesis
        using True assms by (subst merge_levels.simps) (simp add: Let_def)
    next
      case (Inr ys)
      have "length ys \<le> (length cur + nat group_size - 1) div nat group_size"
        using merge_groups_length [OF Inr] by (simp add: length_range_step)
      also have "\<dots> < length cur"
        using range_step_shrinks [of "nat group_size" "length cur"] True assms by simp
      finally have "\<exists>r. merge_levels ai pystr mf t group_size (level + 1) ys = Some r"
        by (rule less.hyps)
      then show ?thesis
        using True assms Inr by (subst merge_levels.simps) (simp add: Let_def)
    qed
  qed
qed

lemma hierarchical_merge_terminates:
  "2 \<le> group_size \<Longrightarrow>
   \<exists>r. hierarchical_merge_results ai pystr results mf t group_size = Some r"
  by (simp add: hierarchical_merge_results_def merge_levels_terminates)

lemma fallback_mappings_on_dicts:
  "\<exists>d'. fallback_mappings (on_dicts f) (JDict d) grp = Inr (JDict d')"
proof (induction grp arbitrary: d)
  case Nil
  then show ?case by simp
next
  case (Cons item grp)
  show ?case
  proof (cases item)
    case (JDict n)
    then show ?thesis using Cons.IH [of "f d n"]
      by (simp add: on_dicts_def and_then_def)
  qed (use Cons.IH in simp_all)
qed

lemma fallback_merge_group_mapping:
  "t \<noteq> ''characters'' \<Longrightarrow>
   \<exists>d. fallback_merge_group pystr grp (on_dicts f) t = Inr (JDict d)"
  by (simp add: fallback_merge_group_def fallback_mappings_on_dicts)

lemma ai_merge_group_mapping_returns:
  assumes "t \<noteq> ''characters''"
  shows "\<exists>v. ai_merge_group ai pystr grp (on_dicts f) t level num = Inr v"
proof -
  obtain d where d: "fallback_merge_group pystr grp (on_dicts f) t = Inr (JDict d)"
    using fallback_merge_group_mapping [OF assms] by blast
  show ?thesis
    by (cases "ai level num grp") (simp_all add: ai_merge_group_def try_except_def d)
qed

lemma ai_merge_group_parsed_returns:
  assumes "\<And>level num grp. \<exists>v. ai level num grp = AiJson v"
  shows "\<exists>v. ai_merge_group ai pystr grp mf t level num = Inr v"
proof -
  obtain v where "ai level num grp = AiJson v" using assms by blast
  then show ?thesis by (simp add: ai_merge_group_def try_except_def)
qed

lemma merge_groups_returns:
  assumes "\<And>grp level num. \<exists>v. ai_merge_group ai pystr grp mf t level num = Inr v"
  shows "\<exists>ys. merge_groups ai pystr mf t level gs cur starts = Inr ys"
proof (induction starts)
  case Nil
  then show ?case by simp
next
  case (Cons i starts)
  obtain v where "ai_merge_group ai pystr (take gs (drop i cur)) mf t level (i div gs + 1) = Inr v"
    using assms by blast
  with Cons.IH show ?case by (auto simp: and_then_def)
qed

lemma merge_levels_returns:
  assumes "2 \<le> group_size"
    and "\<And>grp level num. \<exists>v. ai_merge_group ai pystr grp mf t level num = Inr v"
  shows "\<exists>v. merge_levels ai pystr mf t group_size level cur = Some (Inr v)"
proof (induction "length cur" arbitrary: cur level rule: less_induct)
  case less
  show ?case
  proof (cases "1 < length cur")
    case False
    then show ?thesis by (subst merge_levels.simps) simp
  next
    case True
    obtain ys where ys: "merge_groups ai pystr mf t level (nat group_size) cur
                   (range_step (length cur) (nat group_size)) = Inr ys"
      using merge_groups_returns [of ai pystr mf t, OF assms(2)] by blast
    have "length ys \<le> (length cur + nat group_size - 1) div nat group_size"
      using merge_groups_length [OF ys] by (simp add: length_range_step)
    also have "\<dots> < length cur"
      using range_step_shrinks [of "nat group_size" "length cur"] True assms(1) by simp
    finally have "\<exists>v. merge_levels ai pystr mf t group_size (level + 1) ys = Some (Inr v)"
      by (rule less.hyps)
    then show ?thesis
      using True assms(1) ys by (subst merge_levels.simps) (simp add: Let_def)
  qed
qed

text \<open>
  The bound on the group size is needed. With a group size of 1 every group holds one
  result, which \<^verbatim>\<open>_ai_merge_group\<close> returns as it is, so each level is a copy of the
  level before and the \<^verbatim>\<open>while\<close> loop never ends on two or more results.
\<close>

lemma range_step_one: "range_step n (Suc 0) = [0..<n]"
  by (simp add: range_step_def map_idI)

lemma singleton_groups:
  "k \<le> length cur \<Longrightarrow>
   merge_groups ai pystr mf t level (Suc 0) cur [k..<length cur]
     = Inr (filter (\<lambda>v. v \<noteq> JNull) (drop k cur))"
proof (induction "length cur - k" arbitrary: k)
  case 0
  then show ?case by simp
next
  case (Suc d)
  then have k: "k < length cur" by simp
  then have upt: "[k..<length cur] = k # [Suc k..<length cur]" by (simp add: upt_rec)
  have grp: "take (Suc 0) (drop k cur) = [cur ! k]"
    using k by (metis Cons_nth_drop_Suc take0 take_Suc_Cons)
  have d: "drop k cur = cur ! k # drop (Suc k) cur"
    using k by (simp add: Cons_nth_drop_Suc)
  have "merge_groups ai pystr mf t level (Suc 0) cur [Suc k..<length cur]
          = Inr (filter (\<lambda>v. v \<noteq> JNull) (drop (Suc k) cur))"
    using Suc.hyps(1) [of "Suc k"] Suc.hyps(2) k by simp
  then show ?case
    unfolding upt d by (simp add: grp ai_merge_group_def and_then_def)
qed

lemma group_size_one_no_result:
  assumes "merge_levels ai pystr mf t gs level cur = Some y"
  shows "\<not> (gs = 1 \<and> 2 \<le> length cur \<and> JNull \<notin> set cur)"
  using assms
proof (induction ai pystr mf t gs level cur y rule: merge_levels.raw_induct)
  case (1 merge_levels' ai pystr mf t gs level cur y)
  show ?case
  proof
    assume a: "gs = 1 \<and> 2 \<le> length cur \<and> JNull \<notin> set cur"
    then have keep: "filter (\<lambda>v. v \<noteq> JNull) cur = cur"
      by (auto simp: filter_id_conv)
    have g: "merge_groups ai pystr mf t level (Suc 0) cur (range_step (length cur) (Suc 0))
            = Inr cur"
      using singleton_groups [of 0 cur ai pystr mf t level] keep
      by (simp add: range_step_one)
    from g a "1.hyps" have approx: "merge_levels' ai pystr mf t gs (level + 1) cur = Some y"
      by (simp add: Let_def)
    have "merge_levels ai pystr mf t gs level cur = Some y"
      by (rule "1.prems")
    then have "merge_levels ai pystr mf t gs (level + 1) cur = Some y"
      using g a by (subst (asm) merge_levels.simps) (simp add: Let_def)
    from "1.IH" [OF approx this] a show False by simp
  qed
qed (rule assms)

lemma group_size_one_never_ends:
  assumes "2 \<le> length results" "JNull \<notin> set results"
  shows "hierarchical_merge_results ai pystr results mf t 1 = None"
proof -
  have "merge_levels ai pystr mf t 1 1 results \<noteq> Some y" for y
    using group_size_one_no_result [of ai pystr mf t 1 1 results y] assms by blast
  then have "merge_levels ai pystr mf t 1 1 results = None" by (meson option.exhaust)
  with assms show ?thesis
    by (auto simp: hierarchical_merge_results_def)
qed

text \<open>
  A merge request answered by the JSON text \<^verbatim>\<open>null\<close>.
\<close>

lemma merge_groups_all_null:
  assumes "\<And>level num grp. ai level num grp = AiJson JNull"
    and "\<forall>i \<in> set starts. 2 \<le> length (take gs (drop i cur))"
  shows "merge_groups ai pystr mf t level gs cur starts = Inr []"
  using assms(2)
proof (induction starts)
  case Nil
  then show ?case by simp
next
  case (Cons i starts)
  then have "2 \<le> length (take gs (drop i cur))" by simp
  then have "ai_merge_group ai pystr (take gs (drop i cur)) mf t level (i div gs + 1) = Inr JNull"
    unfolding ai_merge_group_def using assms(1)
    by (auto simp: try_except_def)
  with Cons show ?case by (simp add: and_then_def)
qed

lemma range_step_groups_large:
  fixes n gs :: nat
  assumes "2 \<le> gs" "n mod gs \<noteq> 1" "length cur = n"
  shows "\<forall>i \<in> set (range_step n gs). 2 \<le> length (take gs (drop i cur))"
proof
  fix i
  assume "i \<in> set (range_step n gs)"
  then have "\<exists>k. i = k * gs \<and> k < (n + gs - 1) div gs"
    unfolding range_step_def by auto
  then obtain k where k: "i = k * gs" "k < (n + gs - 1) div gs"
    by blast
  have "k * gs < n"
  proof (rule ccontr)
    assume "\<not> k * gs < n"
    then have "n + gs - 1 < (k + 1) * gs" using assms(1) by simp
    then have "(n + gs - 1) div gs < k + 1"
      using assms(1) by (simp add: div_less_iff_less_mult)
    with k(2) show False by simp
  qed
  moreover have "n - k * gs \<noteq> 1"
  proof
    assume "n - k * gs = 1"
    then have "n = 1 + k * gs" using \<open>k * gs < n\<close> by simp
    then have "n mod gs = 1 mod gs" by (metis mod_mult_self1 mult.commute)
    then have "n mod gs = 1" using assms(1) by simp
    with assms(2) show False by simp
  qed
  ultimately have "2 \<le> n - i" using k(1) by simp
  then show "2 \<le> length (take gs (drop i cur))"
    using assms(1,3) by simp
qed

text \<open>
  Claim C9. When the answer to the merge request of a group of two or more results
  parses to \<^verbatim>\<open>null\<close>, \<open>ai_merge_group\<close> returns null, with no structural fallback;
  the level loop drops it, so when every group of the first level has at least two
  results and every answer is null, the overall merge returns the category's empty
  value. For the two worldview results \<^verbatim>\<open>{"setting":"X"}\<close> and \<^verbatim>\<open>{"setting":"Y"}\<close>
  the result is \<^verbatim>\<open>{}\<close>, although their structural merge holds both settings.
\<close>

theorem null_merge_drops_group:
  "(2 \<le> length grp \<and> ai level group_num grp = AiJson JNull \<longrightarrow>
      ai_merge_group ai pystr grp mf t level group_num = Inr JNull)
   \<and> (2 \<le> length results \<and> 2 \<le> group_size \<and> length results mod nat group_size \<noteq> 1 \<longrightarrow>
        hierarchical_merge_results (\<lambda>level group_num grp. AiJson JNull) pystr results mf t group_size
          = Some (Inr (empty_value t)))
   \<and> hierarchical_merge_results (\<lambda>level group_num grp. AiJson JNull) pystr
        [JDict [(''setting'', JStr ''X'')], JDict [(''setting'', JStr ''Y'')]]
        (on_dicts (merge_worldview_data pystr)) ''worldview'' 4
      = Some (Inr (JDict []))
   \<and> fallback_merge_group pystr
        [JDict [(''setting'', JStr ''X'')], JDict [(''setting'', JStr ''Y'')]]
        (on_dicts (merge_worldview_data pystr)) ''worldview''
      = Inr (JDict [(''setting'', JStr (''X'' @ [CHR 0x0A] @ ''Y''))])"
proof (intro conjI impI)
  assume "2 \<le> length grp \<and> ai level group_num grp = AiJson JNull"
  then show "ai_merge_group ai pystr grp mf t level group_num = Inr JNull"
    by (auto simp: ai_merge_group_def try_except_def)
next
  assume a: "2 \<le> length results \<and> 2 \<le> group_size \<and> length results mod nat group_size \<noteq> 1"
  then have gs: "2 \<le> nat group_size" by linarith
  have "merge_groups (\<lambda>level group_num grp. AiJson JNull) pystr mf t 1 (nat group_size) results
               (range_step (length results) (nat group_size)) = Inr []"
    using a gs by (intro merge_groups_all_null range_step_groups_large) simp_all
  with a show "hierarchical_merge_results (\<lambda>level group_num grp. AiJson JNull) pystr results mf t
                 group_size = Some (Inr (empty_value t))"
    by (simp add: hierarchical_merge_results_def merge_levels.simps [of _ _ _ _ _ _ results]
          merge_levels.simps [of _ _ _ _ _ _ "[]"])
next
  show "hierarchical_merge_results (\<lambda>level group_num grp. AiJson JNull) pystr
        [JDict [(''setting'', JStr ''X'')], JDict [(''setting'', JStr ''Y'')]]
        (on_dicts (merge_worldview_data pystr)) ''worldview'' 4
      = Some (Inr (JDict []))"
    by (simp add: hierarchical_merge_results_def merge_levels.simps range_step_def
          ai_merge_group_def try_except_def and_then_def empty_value_def)
next
  show "fallback_merge_group pystr
        [JDict [(''setting'', JStr ''X'')], JDict [(''setting'', JStr ''Y'')]]
        (on_dicts (merge_worldview_data pystr)) ''worldview''
      = Inr (JDict [(''setting'', JStr (''X'' @ [CHR 0x0A] @ ''Y''))])"
    by (simp add: fallback_merge_group_def and_then_def on_dicts_def merge_worldview_data_def
          sublist_code(3))
qed

theorem null_merge_drops_group_witness:
  "ai_merge_group (\<lambda>level group_num grp. AiJson JNull) (\<lambda>item. [])
       [JList [JDict [(''name'', JStr ''A'')]], JList [JDict [(''name'', JStr ''B'')]]]
       (on_lists (merge_character_lists (\<lambda>item. []))) ''characters'' 1 1 = Inr JNull
   \<and> hierarchical_merge_results (\<lambda>level group_num grp. AiJson JNull) (\<lambda>item. [])
       [JList [JDict [(''name'', JStr ''A'')]], JList [JDict [(''name'', JStr ''B'')]]]
       (on_lists (merge_character_lists (\<lambda>item. []))) ''characters'' 4 = Some (Inr (JList []))"
  using null_merge_drops_group
    [of "[JList [JDict [(''name'', JStr ''A'')]], JList [JDict [(''name'', JStr ''B'')]]]"
        "\<lambda>level group_num grp. AiJson JNull" 1 1 "\<lambda>item. []"
        "on_lists (merge_character_lists (\<lambda>item. []))" "''characters''"
        "[JList [JDict [(''name'', JStr ''A'')]], JList [JDict [(''name'', JStr ''B'')]]]" 4]
  by (simp add: empty_value_def)

subsection \<open>Shape of merged values\<close>

lemma merge_dict_data_keeps_atom:
  "map_of merged k = Some v \<Longrightarrow> hashable v \<Longrightarrow>
   map_of (merge_dict_data pystr merged new) k = Some v"
proof (induction pystr merged new rule: merge_dict_data.induct)
  case (1 pystr merged)
  then show ?case by simp
next
  case (2 pystr merged key "value" rest)
  show ?case
    apply (simp only: merge_dict_data.simps prod.case)
    apply (rule "2.IH"(2))
    subgoal
      using "2.prems"
      by (cases "key = k")
         (auto simp: map_add_def update_conv' split: option.splits json.splits)
    subgoal by (rule "2.prems"(2))
    done
qed

lemma merge_dict_data_adds_atom:
  "map_of merged k = None \<Longrightarrow> map_of new k = Some w \<Longrightarrow> hashable w \<Longrightarrow>
   map_of (merge_dict_data pystr merged new) k = Some w"
proof (induction pystr merged new rule: merge_dict_data.induct)
  case (1 pystr merged)
  then show ?case by simp
next
  case (2 pystr merged key "value" rest)
  show ?case
  proof (cases "key = k")
    case True
    with "2.prems" have v: "value = w" by simp
    show ?thesis
      apply (simp only: merge_dict_data.simps prod.case)
      apply (rule merge_dict_data_keeps_atom)
      subgoal using "2.prems"(1) True v by (simp add: map_add_def)
      subgoal by (rule "2.prems"(3))
      done
  next
    case False
    show ?thesis
      apply (simp only: merge_dict_data.simps prod.case)
      apply (rule "2.IH"(2))
      subgoal
        using "2.prems"(1) False
        by (auto simp: map_add_def update_conv' split: option.splits json.splits)
      subgoal using False "2.prems"(2) by simp
      subgoal by (rule "2.prems"(3))
      done
  qed
qed














text \<open>
  On character entries that are dicts with a name that can be hashed, no step of the
  structural merge raises, and what it returns consists of such entries again.
\<close>

lemma merge_dict_data_no_key:
  "map_of merged k = None \<Longrightarrow> map_of new k = None \<Longrightarrow>
   map_of (merge_dict_data pystr merged new) k = None"
proof (induction pystr merged new rule: merge_dict_data.induct)
  case (1 pystr merged)
  then show ?case by simp
next
  case (2 pystr merged key "value" rest)
  from "2.prems"(2) have ne: "key \<noteq> k" and rest: "map_of rest k = None"
    by (auto split: if_splits)
  show ?case
    apply (simp only: merge_dict_data.simps prod.case)
    apply (rule "2.IH"(2))
    subgoal
      using "2.prems"(1) ne
      by (auto simp: map_add_def update_conv' split: option.splits json.splits)
    subgoal by (rule rest)
    done
qed

lemma merge_dict_data_entry:
  assumes "character_entry (JDict d)" "character_entry (JDict n)"
  shows "character_entry (JDict (merge_dict_data pystr d n))"
proof (cases "map_of d ''name''")
  case (Some v)
  with assms(1) have "hashable v" by (simp add: character_entry_def dict_get_def)
  from merge_dict_data_keeps_atom [OF Some this] this show ?thesis
    by (simp add: character_entry_def dict_get_def)
next
  case None
  show ?thesis
  proof (cases "map_of n ''name''")
    case inner: None
    from merge_dict_data_no_key [OF None inner] show ?thesis
      by (simp add: character_entry_def dict_get_def)
  next
    case (Some w)
    with assms(2) have "hashable w" by (simp add: character_entry_def dict_get_def)
    from merge_dict_data_adds_atom [OF None Some this] this show ?thesis
      by (simp add: character_entry_def dict_get_def)
  qed
qed

lemma merge_into_returns:
  assumes "list_all character_entry merged" "character_entry (JDict n)"
  shows "\<exists>merged'. merge_into pystr cn n merged = Inr merged'
           \<and> list_all character_entry merged'"
  using assms(1)
proof (induction merged)
  case Nil
  then show ?case by simp
next
  case (Cons existing_char rest)
  then obtain e where e: "existing_char = JDict e" and ce: "character_entry (JDict e)"
    by (cases existing_char) (auto simp: character_entry_def)
  from Cons obtain rest' where
    "merge_into pystr cn n rest = Inr rest'" "list_all character_entry rest'"
    by auto
  with Cons.prems e merge_dict_data_entry [OF ce assms(2)] show ?case
    by (auto simp: and_then_def)
qed

lemma merge_chars_loop_returns:
  assumes "list_all character_entry merged" "list_all character_entry new"
  shows "\<exists>r. merge_chars_loop pystr merged names new = Inr r \<and> list_all character_entry r"
  using assms
proof (induction new arbitrary: merged names)
  case Nil
  then show ?case by simp
next
  case (Cons new_char rest)
  then obtain n where n: "new_char = JDict n" and cn: "character_entry (JDict n)"
    by (cases new_char) (auto simp: character_entry_def)
  from cn have h: "hashable (dict_get n ''name'' (JStr []))"
    by (simp add: character_entry_def)
  from Cons.prems have rest: "list_all character_entry rest" by simp
  obtain merged' where
    into: "merge_into pystr (dict_get n ''name'' (JStr [])) n merged = Inr merged'"
    and wf: "list_all character_entry merged'"
    using merge_into_returns [OF Cons.prems(1) cn] by blast
  have app: "list_all character_entry (merged @ [new_char])"
    using Cons.prems(1) n cn by simp
  from Cons.IH [OF app rest] Cons.IH [OF wf rest] Cons.IH [OF Cons.prems(1) rest]
  show ?case
    by (simp add: n py_get_def and_then_def h into)
qed

lemma names_of_returns:
  "list_all character_entry base \<Longrightarrow> \<exists>names. names_of base = Inr names"
proof (induction base)
  case Nil
  then show ?case by simp
next
  case (Cons char chars)
  then obtain d where "char = JDict d" "hashable (dict_get d ''name'' (JStr []))"
    by (cases char) (auto simp: character_entry_def)
  with Cons show ?case by (auto simp: py_get_def and_then_def)
qed

lemma merge_character_lists_returns:
  assumes "list_all character_entry base" "list_all character_entry new"
  shows "\<exists>r. merge_character_lists pystr base new = Inr r \<and> list_all character_entry r"
proof -
  obtain names where "names_of base = Inr names"
    using names_of_returns [OF assms(1)] by blast
  with merge_chars_loop_returns [OF assms, of pystr names] assms show ?thesis
    by (auto simp: merge_character_lists_def and_then_def)
qed

lemma fallback_characters_returns:
  assumes "list_all character_entry result" "\<forall>item \<in> set grp. well_formed item"
  shows "\<exists>r. fallback_characters pystr result grp = Inr r \<and> list_all character_entry r"
  using assms
proof (induction grp arbitrary: result)
  case Nil
  then show ?case by simp
next
  case (Cons item grp)
  show ?case
  proof (cases item)
    case (JList new_list)
    with Cons.prems(2) have "list_all character_entry new_list"
      by (simp add: well_formed_def)
    from merge_character_lists_returns [OF Cons.prems(1) this, of pystr]
    obtain result' where
      m: "merge_character_lists pystr result new_list = Inr result'"
      and wf: "list_all character_entry result'"
      by blast
    from Cons.IH [OF wf] Cons.prems(2) m JList show ?thesis
      by (simp add: and_then_def)
  qed (use Cons in auto)
qed

lemma ai_merge_group_characters_returns:
  assumes "\<forall>item \<in> set grp. well_formed item"
    and "\<And>v. ai level num grp = AiJson v \<Longrightarrow> well_formed v"
  shows "\<exists>v. ai_merge_group ai pystr grp mf ''characters'' level num = Inr v \<and> well_formed v"
proof -
  from fallback_characters_returns [of "[]" grp pystr] assms(1)
  obtain r where "fallback_characters pystr [] grp = Inr r" "list_all character_entry r"
    by auto
  then have fb: "fallback_merge_group pystr grp mf ''characters'' = Inr (JList r)"
    and wf: "well_formed (JList r)"
    by (simp_all add: fallback_merge_group_def and_then_def well_formed_def)
  show ?thesis
  proof (cases "length grp \<le> 1")
    case True
    then consider "grp = []" | x where "grp = [x]"
      by (cases grp) auto
    then show ?thesis
      using assms(1)
      by cases (auto simp: ai_merge_group_def empty_value_def well_formed_def)
  next
    case False
    then have "grp \<noteq> []" "length grp \<noteq> 1" by auto
    then show ?thesis
      using fb wf assms(2)
      by (cases "ai level num grp") (simp_all add: ai_merge_group_def try_except_def)
  qed
qed

lemma merge_groups_characters_returns:
  assumes "\<forall>item \<in> set cur. well_formed item"
    and "\<And>level num grp v. ai level num grp = AiJson v \<Longrightarrow> well_formed v"
  shows "\<exists>ys. merge_groups ai pystr mf ''characters'' level gs cur starts = Inr ys
           \<and> (\<forall>y \<in> set ys. well_formed y)"
proof (induction starts)
  case Nil
  then show ?case by simp
next
  case (Cons i starts)
  have "\<forall>item \<in> set (take gs (drop i cur)). well_formed item"
    using assms(1) by (meson in_set_dropD in_set_takeD)
  then have "\<exists>v. ai_merge_group ai pystr (take gs (drop i cur)) mf ''characters'' level
                (i div gs + 1) = Inr v \<and> well_formed v"
    by (rule ai_merge_group_characters_returns) (rule assms(2))
  then obtain v where
    "ai_merge_group ai pystr (take gs (drop i cur)) mf ''characters'' level (i div gs + 1) = Inr v"
    "well_formed v"
    by blast
  with Cons.IH show ?case by (auto simp: and_then_def)
qed

lemma merge_levels_characters_returns:
  assumes "2 \<le> group_size"
    and "\<And>level num grp v. ai level num grp = AiJson v \<Longrightarrow> well_formed v"
  shows "\<forall>item \<in> set cur. well_formed item \<Longrightarrow>
         \<exists>v. merge_levels ai pystr mf ''characters'' group_size level cur = Some (Inr v)
           \<and> well_formed v"
proof (induction "length cur" arbitrary: cur level rule: less_induct)
  case less
  show ?case
  proof (cases "1 < length cur")
    case False
    then consider "cur = []" | x where "cur = [x]"
      by (cases cur) auto
    then show ?thesis
      using less.prems
      by cases ((subst merge_levels.simps), simp add: empty_value_def well_formed_def)+
  next
    case True
    have "\<exists>ys. merge_groups ai pystr mf ''characters'' level (nat group_size) cur
                   (range_step (length cur) (nat group_size)) = Inr ys
            \<and> (\<forall>y \<in> set ys. well_formed y)"
      using less.prems by (rule merge_groups_characters_returns) (rule assms(2))
    then obtain ys where ys: "merge_groups ai pystr mf ''characters'' level (nat group_size) cur
                   (range_step (length cur) (nat group_size)) = Inr ys"
      and wf: "\<forall>y \<in> set ys. well_formed y"
      by blast
    have "length ys \<le> (length cur + nat group_size - 1) div nat group_size"
      using merge_groups_length [OF ys] by (simp add: length_range_step)
    also have "\<dots> < length cur"
      using range_step_shrinks [of "nat group_size" "length cur"] True assms(1) by simp
    finally have "\<exists>v. merge_levels ai pystr mf ''characters'' group_size (level + 1) ys
                         = Some (Inr v) \<and> well_formed v"
      using wf by (rule less.hyps)
    then show ?thesis
      using True assms(1) ys by (subst merge_levels.simps) (simp add: Let_def)
  qed
qed




subsection \<open>Hierarchical merge: termination, base cases, returned value\<close>

text \<open>
  Claim C2, as amended. For every group size of at least 2 (the default is 4), every
  input list, every merge service and every merge function,
  \<open>hierarchical_merge_results\<close> terminates; the empty list gives the category's empty
  value; a one-element list gives its element unchanged; and a list of any length
  gives a single value
  \<^item> for every category other than characters when the merge function works on dicts
    (as \<^verbatim>\<open>_merge_worldview_data\<close> does),
  \<^item> for characters when every list among the results and among the parsed answers of
    the merge service holds only dicts with names that can be hashed (the value is
    then of that kind too),
  \<^item> for every category when each merge request is answered by parsed JSON.
\<close>

theorem hierarchical_merge_terminates_base_cases:
  assumes "2 \<le> group_size"
  shows "(\<exists>r. hierarchical_merge_results ai pystr results mf t group_size = Some r)
       \<and> hierarchical_merge_results ai pystr [] mf t group_size
           = Some (Inr (if t = ''characters'' then JList [] else JDict []))
       \<and> hierarchical_merge_results ai pystr [x] mf t group_size = Some (Inr x)
       \<and> (t \<noteq> ''characters'' \<longrightarrow>
            (\<exists>v. hierarchical_merge_results ai pystr results (on_dicts f) t group_size
                    = Some (Inr v)))
       \<and> ((\<forall>item \<in> set results. well_formed item)
            \<and> (\<forall>level num grp v. ai level num grp = AiJson v \<longrightarrow> well_formed v) \<longrightarrow>
            (\<exists>v. hierarchical_merge_results ai pystr results mf ''characters'' group_size
                    = Some (Inr v) \<and> well_formed v))
       \<and> ((\<forall>level num grp. \<exists>v. ai level num grp = AiJson v) \<longrightarrow>
            (\<exists>v. hierarchical_merge_results ai pystr results mf t group_size = Some (Inr v)))"
proof (intro conjI impI)
  show "\<exists>r. hierarchical_merge_results ai pystr results mf t group_size = Some r"
    by (rule hierarchical_merge_terminates [OF assms])
next
  show "hierarchical_merge_results ai pystr [] mf t group_size
          = Some (Inr (if t = ''characters'' then JList [] else JDict []))"
    by (simp add: hierarchical_merge_results_def empty_value_def)
next
  show "hierarchical_merge_results ai pystr [x] mf t group_size = Some (Inr x)"
    by (simp add: hierarchical_merge_results_def)
next
  assume "t \<noteq> ''characters''"
  then have "\<exists>v. merge_levels ai pystr (on_dicts f) t group_size 1 results = Some (Inr v)"
    by (intro merge_levels_returns assms ai_merge_group_mapping_returns)
  then show "\<exists>v. hierarchical_merge_results ai pystr results (on_dicts f) t group_size
                    = Some (Inr v)"
    by (auto simp: hierarchical_merge_results_def)
next
  assume a: "(\<forall>item \<in> set results. well_formed item)
            \<and> (\<forall>level num grp v. ai level num grp = AiJson v \<longrightarrow> well_formed v)"
  then have parsed: "\<And>level num grp v. ai level num grp = AiJson v \<Longrightarrow> well_formed v"
    by blast
  from a have wf: "\<forall>item \<in> set results. well_formed item" by blast
  have levels: "\<exists>v. merge_levels ai pystr mf ''characters'' group_size 1 results
                           = Some (Inr v) \<and> well_formed v"
    by (rule merge_levels_characters_returns) (use assms parsed wf in blast)+
  show "\<exists>v. hierarchical_merge_results ai pystr results mf ''characters'' group_size
                    = Some (Inr v) \<and> well_formed v"
  proof (cases results)
    case Nil
    then show ?thesis
      by (simp add: hierarchical_merge_results_def empty_value_def well_formed_def)
  next
    case (Cons y ys)
    show ?thesis
    proof (cases ys)
      case Nil
      with Cons a show ?thesis by (simp add: hierarchical_merge_results_def)
    next
      case inner: (Cons z zs)
      with Cons levels show ?thesis by (simp add: hierarchical_merge_results_def)
    qed
  qed
next
  assume "\<forall>level num grp. \<exists>v. ai level num grp = AiJson v"
  then have "\<exists>v. merge_levels ai pystr mf t group_size 1 results = Some (Inr v)"
    by (intro merge_levels_returns assms ai_merge_group_parsed_returns) simp
  then show "\<exists>v. hierarchical_merge_results ai pystr results mf t group_size = Some (Inr v)"
    by (auto simp: hierarchical_merge_results_def)
qed

text \<open>
  The claim as first stated fails for characters: when the merge service returns
  nothing and two character lists hold entries that are not dicts, the structural
  fallback raises \<^verbatim>\<open>AttributeError\<close> inside the \<^verbatim>\<open>try\<close> and again in the handler, and
  the exception leaves the method: no merged value is returned.
\<close>

theorem hierarchical_merge_raises:
  "hierarchical_merge_results (\<lambda>level group_num grp. AiEmpty) (\<lambda>item. [])
     [JList [JStr ''Alice''], JList [JStr ''Bob'']]
     (on_lists (merge_character_lists (\<lambda>item. []))) ''characters'' 4
   = Some (Inl AttributeError)"
  by (simp add: hierarchical_merge_results_def merge_levels.simps range_step_def
        ai_merge_group_def try_except_def fallback_merge_group_def and_then_def
        merge_character_lists_def py_get_def)


theorem hierarchical_merge_terminates_base_cases_witness:
  "hierarchical_merge_results (\<lambda>level group_num grp. AiEmpty) (\<lambda>item. [])
     [JDict [(''a'', JStr ''1'')], JDict [(''b'', JStr ''2'')], JDict [(''c'', JStr ''3'')],
      JDict [(''d'', JStr ''4'')], JDict [(''a'', JStr ''5'')]]
     (on_dicts (merge_worldview_data (\<lambda>item. []))) ''worldview'' 4
   = Some (Inr (JDict [(''a'', JStr (''1'' @ [CHR 0x0A] @ ''5'')), (''b'', JStr ''2''),
                       (''c'', JStr ''3''), (''d'', JStr ''4'')]))
   \<and> hierarchical_merge_results (\<lambda>level group_num grp. AiEmpty) (\<lambda>item. [])
     [JList [JDict [(''name'', JStr ''A''), (''age'', JInt 25)]], JList [],
      JList [JDict [(''name'', JStr ''B'')], JDict [(''name'', JStr ''A''), (''role'', JStr ''hero'')]],
      JList [JDict [(''name'', JStr ''C'')]], JList [JDict [(''name'', JStr ''B''), (''age'', JInt 30)]]]
     (on_lists (merge_character_lists (\<lambda>item. []))) ''characters'' 4
   = Some (Inr (JList [JDict [(''name'', JStr ''A''), (''age'', JInt 25), (''role'', JStr ''hero'')],
                       JDict [(''name'', JStr ''B''), (''age'', JInt 30)],
                       JDict [(''name'', JStr ''C'')]]))"
  using hierarchical_merge_terminates_base_cases
    [of 4 "\<lambda>level group_num grp. AiEmpty" "\<lambda>item. []"
        "[JDict [(''a'', JStr ''1'')], JDict [(''b'', JStr ''2'')], JDict [(''c'', JStr ''3'')],
          JDict [(''d'', JStr ''4'')], JDict [(''a'', JStr ''5'')]]"
        "on_dicts (merge_worldview_data (\<lambda>item. []))" "''worldview''" JNull
        "merge_worldview_data (\<lambda>item. [])"]
    hierarchical_merge_terminates_base_cases
    [of 4 "\<lambda>level group_num grp. AiEmpty" "\<lambda>item. []"
        "[JList [JDict [(''name'', JStr ''A''), (''age'', JInt 25)]], JList [],
          JList [JDict [(''name'', JStr ''B'')], JDict [(''name'', JStr ''A''), (''role'', JStr ''hero'')]],
          JList [JDict [(''name'', JStr ''C'')]], JList [JDict [(''name'', JStr ''B''), (''age'', JInt 30)]]]"
        "on_lists (merge_character_lists (\<lambda>item. []))" "''characters''" JNull
        "merge_worldview_data (\<lambda>item. [])"]
  by (simp add: hierarchical_merge_results_def merge_levels.simps range_step_def
        ai_merge_group_def try_except_def fallback_merge_group_def and_then_def
        on_dicts_def merge_worldview_data_def upt_rec sublist_code(3)
        merge_character_lists_def py_get_def dict_get_def in_names_def py_eq_def
        well_formed_def character_entry_def)

subsection \<open>Retry wrapper\<close>

lemma strip_Nil: "strip [] = []"
  by (simp add: strip_def)

lemma clean_Nil: "clean [] = []"
  by (simp add: clean_def strip_Nil)

text \<open>
  No fence marker survives the cleaning. A run of \<open>n\<close> backticks is cut down to
  \<open>n mod 3\<close> of them, and removing a marker joins no two runs.
\<close>

lemma prefix_fence_iff:
  "prefix ''```'' s \<longleftrightarrow> 3 \<le> length (takeWhile (\<lambda>c. c = CHR 0x60) s)"
proof (cases s)
  case Nil
  then show ?thesis by simp
next
  case s1: (Cons a s')
  show ?thesis
  proof (cases s')
    case Nil
    with s1 show ?thesis by simp
  next
    case s2: (Cons b s'')
    show ?thesis
    proof (cases s'')
      case Nil
      with s1 s2 show ?thesis by simp
    next
      case (Cons c s''')
      with s1 s2 show ?thesis by auto
    qed
  qed
qed

lemma remove_all_match:
  assumes "old \<noteq> []" "prefix old (c # cs)"
  shows "remove_all old (c # cs) = remove_all old (drop (length old) (c # cs))"
  using assms by (subst remove_all.simps) (simp only: simp_thms if_True)

lemma remove_all_skip:
  assumes "\<not> (old \<noteq> [] \<and> prefix old (c # cs))"
  shows "remove_all old (c # cs) = c # remove_all old cs"
  using assms by (subst remove_all.simps) (simp only: if_False)

lemma remove_fence_leading:
  "length (takeWhile (\<lambda>c. c = CHR 0x60) (remove_all ''```'' s))
     = length (takeWhile (\<lambda>c. c = CHR 0x60) s) mod 3"
proof (induction "''```''" s rule: remove_all.induct)
  case 1
  then show ?case by simp
next
  case (2 c cs)
  have ne: "''```'' \<noteq> []" by simp
  show ?case
  proof (cases "prefix ''```'' (c # cs)")
    case True
    then obtain rest where rest: "c # cs = ''```'' @ rest" by (auto simp: prefix_def)
    then have d: "drop (length ''```'') (c # cs) = rest" by simp
    have ih: "length (takeWhile (\<lambda>c. c = CHR 0x60) (remove_all ''```'' rest))
            = length (takeWhile (\<lambda>c. c = CHR 0x60) rest) mod 3"
      using "2.hyps"(1) [OF conjI [OF ne True]] unfolding d .
    have step: "remove_all ''```'' (c # cs) = remove_all ''```'' rest"
      using remove_all_match [OF ne True] unfolding d .
    have "length (takeWhile (\<lambda>c. c = CHR 0x60) (c # cs))
            = 3 + length (takeWhile (\<lambda>c. c = CHR 0x60) rest)"
      unfolding rest by simp
    with ih show ?thesis unfolding step by simp
  next
    case False
    then have no: "\<not> (''```'' \<noteq> [] \<and> prefix ''```'' (c # cs))" by blast
    from False have few: "length (takeWhile (\<lambda>c. c = CHR 0x60) (c # cs)) < 3"
      by (simp only: prefix_fence_iff not_le)
    note step = remove_all_skip [OF no]
    note ih = "2.hyps"(2) [OF no]
    show ?thesis
    proof (cases "c = CHR 0x60")
      case True
      with few have "length (takeWhile (\<lambda>c. c = CHR 0x60) cs) < 2" by simp
      with ih True show ?thesis unfolding step by simp
    next
      case False
      then show ?thesis unfolding step by simp
    qed
  qed
qed

lemma remove_fence_none: "\<not> sublist ''```'' (remove_all ''```'' s)"
proof (induction "''```''" s rule: remove_all.induct)
  case 1
  then show ?case by simp
next
  case (2 c cs)
  have ne: "''```'' \<noteq> []" by simp
  show ?case
  proof (cases "prefix ''```'' (c # cs)")
    case True
    from "2.hyps"(1) [OF conjI [OF ne True]] show ?thesis
      unfolding remove_all_match [OF ne True] .
  next
    case False
    then have no: "\<not> (''```'' \<noteq> [] \<and> prefix ''```'' (c # cs))" by blast
    from False have few: "length (takeWhile (\<lambda>c. c = CHR 0x60) (c # cs)) < 3"
      by (simp only: prefix_fence_iff not_le)
    note step = remove_all_skip [OF no]
    note ih = "2.hyps"(2) [OF no]
    have "\<not> prefix ''```'' (c # remove_all ''```'' cs)"
    proof
      assume "prefix ''```'' (c # remove_all ''```'' cs)"
      then have many: "3 \<le> length (takeWhile (\<lambda>c. c = CHR 0x60) (c # remove_all ''```'' cs))"
        by (simp only: prefix_fence_iff)
      show False
      proof (cases "c = CHR 0x60")
        case True
        with few have "length (takeWhile (\<lambda>c. c = CHR 0x60) cs) < 2" by simp
        moreover from many True
        have "2 \<le> length (takeWhile (\<lambda>c. c = CHR 0x60) (remove_all ''```'' cs))" by simp
        ultimately show False using remove_fence_leading [of cs] by simp
      next
        case False
        with many show False by simp
      qed
    qed
    with ih show ?thesis
      unfolding step by (simp only: sublist_Cons_right simp_thms)
  qed
qed

lemma sublist_strip: "sublist (strip s) s"
proof -
  have "suffix (dropWhile is_space s) s"
    by (rule suffix_dropWhile)
  moreover have "prefix (strip s) (dropWhile is_space s)"
  proof -
    have "suffix (dropWhile is_space (rev (dropWhile is_space s))) (rev (dropWhile is_space s))"
      by (rule suffix_dropWhile)
    then show ?thesis
      unfolding strip_def by (metis suffix_to_prefix rev_rev_ident)
  qed
  ultimately show ?thesis
    by (meson sublist_order.order_trans prefix_imp_sublist suffix_imp_sublist)
qed

lemma clean_no_fence: "\<not> sublist ''```'' (clean r) \<and> \<not> sublist ''```json'' (clean r)"
proof -
  have a: "\<not> sublist ''```'' (clean r)"
    unfolding clean_def
    using remove_fence_none sublist_strip sublist_order.order_trans by blast
  have "sublist ''```'' ''```json''" by (simp add: sublist_code)
  with a have "\<not> sublist ''```json'' (clean r)"
    using sublist_order.order_trans by blast
  with a show ?thesis by simp
qed

text \<open>
  The adapter calls and sleeps of a run, whatever the stream does; and the run in
  which every \<^verbatim>\<open>print\<close> returns: the first attempt whose cleaned reply is not empty
  decides.
\<close>

lemma attempts_trace_Suc:
  "attempts_trace (Suc r) = (attempts_trace r @ (if r = 0 then [] else [Sleep 2])) @ [Invoke r]"
  by (cases r) simp_all

lemma timeline_simps:
  "timeline [] = []"
  "timeline (Invoke k # events) = Invoke k # timeline events"
  "timeline (Sleep s # events) = Sleep s # timeline events"
  "timeline (Print p # events) = timeline events"
  "timeline (xs @ ys) = timeline xs @ timeline ys"
  by (simp_all add: timeline_def)

lemma all_printed_simps:
  "all_printed out [] = True"
  "all_printed out (Invoke k # events) = all_printed out events"
  "all_printed out (Sleep s # events) = all_printed out events"
  "all_printed out (Print p # events) = (out p \<and> all_printed out events)"
  "all_printed out (xs @ ys) = (all_printed out xs \<and> all_printed out ys)"
  by (simp_all add: all_printed_def)

lemma calls_timeline: "calls (timeline events) = calls events"
proof (induction events)
  case Nil
  then show ?case by (simp add: timeline_def)
next
  case (Cons e events)
  then show ?case by (cases e) (simp_all add: timeline_def calls_def)
qed

lemma calls_attempts_trace: "calls (attempts_trace k) = k"
  by (induction k rule: attempts_trace.induct) (simp_all add: calls_def)

lemma print_all_timeline: "timeline (snd (print_all out ps)) = []"
  by (induction ps) (auto simp: timeline_simps split: prod.splits)

lemma print_all_printed:
  "all_printed out (snd (print_all out ps)) \<Longrightarrow> fst (print_all out ps) = Inr ()"
  by (induction ps) (auto simp: all_printed_simps split: prod.splits if_splits)

lemma failed_attempt_timeline:
  "timeline (snd (failed_attempt out r m res)) = []"
  by (auto simp: failed_attempt_def timeline_simps split: prod.splits sum.splits if_splits)

lemma failed_attempt_printed:
  "all_printed out (snd (failed_attempt out r m res)) \<Longrightarrow>
   fst (failed_attempt out r m res) = Inr (Retry res True)"
  by (auto simp: failed_attempt_def all_printed_simps split: prod.splits sum.splits if_splits)

lemma one_attempt_timeline:
  "timeline (snd (one_attempt out reply r m res le)) = []"
proof (cases reply)
  case Raises
  then show ?thesis by (simp add: one_attempt_def failed_attempt_timeline)
next
  case (Replies x)
  have "timeline (snd (print_all out (reply_lines x))) = []"
    by (rule print_all_timeline)
  moreover have "timeline (snd (failed_attempt out r m x)) = []"
    by (rule failed_attempt_timeline)
  ultimately show ?thesis
    using Replies
    by (auto simp: one_attempt_def timeline_simps Let_def split: prod.splits sum.splits)
qed

lemma one_attempt_printed:
  assumes "all_printed out (snd (one_attempt out reply r m res le))"
  shows "fst (one_attempt out reply r m res le)
           = Inr (if cleaned_reply reply \<noteq> [] then Return (cleaned_reply reply)
                  else Retry (if reply = Raises then res else [])
                             (le \<or> reply = Raises))"
proof (cases reply)
  case Raises
  with assms failed_attempt_printed [of out r m res] show ?thesis
    by (simp add: one_attempt_def cleaned_reply_def)
next
  case (Replies x)
  obtain u ev where p: "print_all out (reply_lines x) = (u, ev)"
    by (cases "print_all out (reply_lines x)")
  show ?thesis
  proof (cases u)
    case (Inl e)
    with assms Replies p have "all_printed out ev"
      by (simp add: one_attempt_def all_printed_simps split: prod.splits)
    with print_all_printed [of out "reply_lines x"] p Inl show ?thesis by simp
  next
    case (Inr v)
    with Replies p show ?thesis
      by (auto simp: one_attempt_def cleaned_reply_def Let_def clean_Nil)
  qed
qed

lemma invoke_loop_timeline:
  "\<exists>k. (if int r < m then r < k \<and> int k \<le> m else k = r)
     \<and> (attempts_trace r @ (if 0 < r \<and> int r < m then [Sleep 2] else []))
          @ timeline (snd (invoke_loop out a p m r res le))
        = attempts_trace k"
proof (induction "nat (m - int r)" arbitrary: r res le rule: less_induct)
  case less
  show ?case
  proof (cases "int r < m")
    case False
    have "timeline (snd (invoke_loop out a p m r res le)) = []"
      using False
      by (subst invoke_loop.simps)
         (simp add: timeline_simps split: prod.splits sum.splits if_splits)
    with False show ?thesis by simp
  next
    case True
    obtain x ev where one: "one_attempt out (a p r) r m res le = (x, ev)"
      by (cases "one_attempt out (a p r) r m res le")
    with one_attempt_timeline [of out "a p r" r m res le]
    have ev: "timeline ev = []" by simp
    have start: "(attempts_trace r @ (if 0 < r \<and> int r < m then [Sleep 2] else []))
                   @ [Invoke r] = attempts_trace (Suc r)"
      using True by (simp add: attempts_trace_Suc del: attempts_trace.simps)
    have stop: "r < Suc r \<and> int (Suc r) \<le> m" using True by simp
    show ?thesis
    proof (cases x)
      case (Inl e)
      with one True have "invoke_loop out a p m r res le = (Inl e, Invoke r # ev)"
        by (subst invoke_loop.simps) simp
      with ev start stop True show ?thesis
        by (intro exI [of _ "Suc r"]) (simp add: timeline_simps del: attempts_trace.simps)
    next
      case (Inr att)
      show ?thesis
      proof (cases att)
        case (Return y)
        with Inr one True have "invoke_loop out a p m r res le = (Inr y, Invoke r # ev)"
          by (subst invoke_loop.simps) simp
        with ev start stop True show ?thesis
          by (intro exI [of _ "Suc r"]) (simp add: timeline_simps del: attempts_trace.simps)
      next
        case (Retry res' le')
        let ?rest = "invoke_loop out a p m (Suc r) res' le'"
        have unfold: "snd (invoke_loop out a p m r res le)
                = Invoke r # ev @ (if int r + 1 < m then [Sleep 2] else []) @ snd ?rest"
          using Retry Inr one True
          by (subst invoke_loop.simps) (simp split: prod.splits)
        have "nat (m - int (Suc r)) < nat (m - int r)" using True by simp
        from less.hyps [OF this, of res' le'] obtain k where
          k: "if int (Suc r) < m then Suc r < k \<and> int k \<le> m else k = Suc r"
          and tr: "(attempts_trace (Suc r) @ (if int (Suc r) < m then [Sleep 2] else []))
                 @ timeline (snd ?rest) = attempts_trace k"
          by auto
        have c: "(int r + 1 < m) = (int (Suc r) < m)" by presburger
        have "(attempts_trace r @ (if 0 < r \<and> int r < m then [Sleep 2] else []))
                @ timeline (snd (invoke_loop out a p m r res le))
              = ((attempts_trace r @ (if 0 < r \<and> int r < m then [Sleep 2] else []))
                   @ [Invoke r])
                @ (if int (Suc r) < m then [Sleep 2] else []) @ timeline (snd ?rest)"
          unfolding unfold c by (simp add: timeline_simps ev del: attempts_trace.simps)
        also have "\<dots> = attempts_trace k"
          unfolding start using tr by (simp del: attempts_trace.simps)
        finally have "(attempts_trace r @ (if 0 < r \<and> int r < m then [Sleep 2] else []))
                @ timeline (snd (invoke_loop out a p m r res le)) = attempts_trace k" .
        moreover have "r < k \<and> int k \<le> m"
          using k True by (auto split: if_splits)
        ultimately show ?thesis using True by (intro exI [of _ k]) simp
      qed
    qed
  qed
qed

lemma invoke_loop_printed:
  assumes "all_printed out (snd (invoke_loop out a p m r [] le))" and "r \<le> nat m"
  shows "fst (invoke_loop out a p m r [] le)
           = (case List.find (\<lambda>i. cleaned_reply (a p i) \<noteq> []) [r..<nat m] of
                Some i \<Rightarrow> Inr (cleaned_reply (a p i))
              | None \<Rightarrow> Inr [])
       \<and> (attempts_trace r @ (if 0 < r \<and> int r < m then [Sleep 2] else []))
            @ timeline (snd (invoke_loop out a p m r [] le))
          = (case List.find (\<lambda>i. cleaned_reply (a p i) \<noteq> []) [r..<nat m] of
                Some i \<Rightarrow> attempts_trace (Suc i)
              | None \<Rightarrow> attempts_trace (nat m))"
  using assms
proof (induction "nat (m - int r)" arbitrary: r le rule: less_induct)
  case less
  show ?case
  proof (cases "int r < m")
    case False
    with less.prems(2) have r: "r = nat m" by simp
    have "all_printed out (snd (print_all out [GiveUpNotice m])) \<or> \<not> le"
      using less.prems(1) False
      by (subst (asm) invoke_loop.simps) (simp split: prod.splits sum.splits if_splits)
    then have "fst (invoke_loop out a p m r [] le) = Inr []
        \<and> timeline (snd (invoke_loop out a p m r [] le)) = []"
      using False
      by (subst (1 2) invoke_loop.simps)
         (auto simp: timeline_simps all_printed_simps split: prod.splits sum.splits if_splits)
    with False r show ?thesis by simp
  next
    case True
    then have upt: "[r..<nat m] = r # [Suc r..<nat m]" by (simp add: upt_rec)
    obtain x ev where one: "one_attempt out (a p r) r m [] le = (x, ev)"
      by (cases "one_attempt out (a p r) r m [] le")
    with one_attempt_timeline [of out "a p r" r m "[]" le]
    have ev: "timeline ev = []" by simp
    have start: "(attempts_trace r @ (if 0 < r \<and> int r < m then [Sleep 2] else []))
                   @ [Invoke r] = attempts_trace (Suc r)"
      using True by (simp add: attempts_trace_Suc del: attempts_trace.simps)
    have printed: "all_printed out ev"
      using less.prems(1) True one
      by (subst (asm) invoke_loop.simps)
         (auto simp: all_printed_simps split: prod.splits sum.splits attempt.splits)
    with one_attempt_printed [of out "a p r" r m "[]" le] one
    have x: "x = Inr (if cleaned_reply (a p r) \<noteq> [] then Return (cleaned_reply (a p r))
                  else Retry [] (le \<or> a p r = Raises))"
      by simp
    show ?thesis
    proof (cases "cleaned_reply (a p r) \<noteq> []")
      case found: True
      with x one True
      have "invoke_loop out a p m r [] le = (Inr (cleaned_reply (a p r)), Invoke r # ev)"
        by (subst invoke_loop.simps) simp
      with found ev start show ?thesis
        unfolding upt by (simp add: timeline_simps del: attempts_trace.simps)
    next
      case False
      let ?le = "le \<or> a p r = Raises"
      let ?rest = "invoke_loop out a p m (Suc r) [] ?le"
      have unfold: "invoke_loop out a p m r [] le
                = (fst ?rest,
                   Invoke r # ev @ (if int r + 1 < m then [Sleep 2] else []) @ snd ?rest)"
        using False x one True
        by (subst invoke_loop.simps) (simp split: prod.splits)
      have rest_printed: "all_printed out (snd ?rest)"
        using less.prems(1) unfolding unfold by (simp add: all_printed_simps)
      have "nat (m - int (Suc r)) < nat (m - int r)" using True by simp
      moreover have "Suc r \<le> nat m" using True by simp
      ultimately have ih:
        "fst ?rest
           = (case List.find (\<lambda>i. cleaned_reply (a p i) \<noteq> []) [Suc r..<nat m] of
                Some i \<Rightarrow> Inr (cleaned_reply (a p i))
              | None \<Rightarrow> Inr [])"
        "(attempts_trace (Suc r) @ (if int (Suc r) < m then [Sleep 2] else []))
            @ timeline (snd ?rest)
          = (case List.find (\<lambda>i. cleaned_reply (a p i) \<noteq> []) [Suc r..<nat m] of
                Some i \<Rightarrow> attempts_trace (Suc i)
              | None \<Rightarrow> attempts_trace (nat m))"
        using less.hyps [of "Suc r" ?le] rest_printed by simp_all
      have c: "(int r + 1 < m) = (int (Suc r) < m)" by presburger
      have "(attempts_trace r @ (if 0 < r \<and> int r < m then [Sleep 2] else []))
                @ timeline (snd (invoke_loop out a p m r [] le))
              = ((attempts_trace r @ (if 0 < r \<and> int r < m then [Sleep 2] else []))
                   @ [Invoke r])
                @ (if int (Suc r) < m then [Sleep 2] else []) @ timeline (snd ?rest)"
        unfolding unfold c by (simp add: timeline_simps ev del: attempts_trace.simps)
      also have "\<dots> = (case List.find (\<lambda>i. cleaned_reply (a p i) \<noteq> []) [Suc r..<nat m] of
                Some i \<Rightarrow> attempts_trace (Suc i)
              | None \<Rightarrow> attempts_trace (nat m))"
        unfolding start using ih(2) by (simp del: attempts_trace.simps)
      finally show ?thesis
        using False ih(1) unfolding upt by (simp add: unfold del: attempts_trace.simps)
    qed
  qed
qed

lemma invoke_with_cleaning_timeline:
  "\<exists>k. k \<le> nat m
     \<and> timeline (snd (invoke_with_cleaning out a p m)) = attempts_trace k
     \<and> calls (snd (invoke_with_cleaning out a p m)) = k"
proof -
  obtain u ev where pre: "print_all out (prompt_lines p) = (u, ev)"
    by (cases "print_all out (prompt_lines p)")
  with print_all_timeline [of out "prompt_lines p"] have ev: "timeline ev = []" by simp
  have "\<exists>k. k \<le> nat m \<and> timeline (snd (invoke_with_cleaning out a p m)) = attempts_trace k"
  proof (cases u)
    case (Inl e)
    with pre ev show ?thesis
      by (intro exI [of _ 0]) (simp add: invoke_with_cleaning_def)
  next
    case (Inr v)
    from invoke_loop_timeline [of 0 m out a p "[]" False] obtain k where
      k: "if 0 < m then 0 < k \<and> int k \<le> m else k = 0"
      and tr: "timeline (snd (invoke_loop out a p m 0 [] False)) = attempts_trace k"
      by auto
    from k have "k \<le> nat m" by (auto split: if_splits)
    with Inr pre ev tr show ?thesis
      by (intro exI [of _ k])
         (auto simp: invoke_with_cleaning_def timeline_simps split: prod.splits
            simp del: attempts_trace.simps)
  qed
  then obtain k where "k \<le> nat m"
    "timeline (snd (invoke_with_cleaning out a p m)) = attempts_trace k"
    by blast
  moreover from this(2) have "calls (snd (invoke_with_cleaning out a p m)) = k"
    using calls_timeline [of "snd (invoke_with_cleaning out a p m)"]
    by (simp add: calls_attempts_trace del: attempts_trace.simps)
  ultimately show ?thesis by blast
qed

lemma invoke_with_cleaning_printed:
  assumes "all_printed out (snd (invoke_with_cleaning out a p m))"
  shows "(fst (invoke_with_cleaning out a p m), timeline (snd (invoke_with_cleaning out a p m)))
           = (case List.find (\<lambda>i. cleaned_reply (a p i) \<noteq> []) [0..<nat m] of
                Some i \<Rightarrow> (Inr (cleaned_reply (a p i)), attempts_trace (Suc i))
              | None \<Rightarrow> (Inr [], attempts_trace (nat m)))"
proof -
  obtain u ev where pre: "print_all out (prompt_lines p) = (u, ev)"
    by (cases "print_all out (prompt_lines p)")
  with print_all_timeline [of out "prompt_lines p"] have ev: "timeline ev = []" by simp
  from assms pre have "all_printed out ev"
    by (auto simp: invoke_with_cleaning_def all_printed_simps split: prod.splits sum.splits)
  with print_all_printed [of out "prompt_lines p"] pre have u: "u = Inr ()" by simp
  let ?loop = "invoke_loop out a p m 0 [] False"
  from u pre have run: "invoke_with_cleaning out a p m = (fst ?loop, ev @ snd ?loop)"
    by (simp add: invoke_with_cleaning_def split: prod.splits)
  with assms have "all_printed out (snd ?loop)" by (simp add: all_printed_simps)
  from invoke_loop_printed [OF this] ev show ?thesis
    unfolding run
    by (simp add: timeline_simps split: option.splits del: attempts_trace.simps(2,3))
qed

lemma all_printed_accepting: "(\<And>p. out p) \<Longrightarrow> all_printed out events"
proof (induction events)
  case Nil
  then show ?case by (simp add: all_printed_def)
next
  case (Cons e events)
  then show ?case by (cases e) (simp_all add: all_printed_def)
qed

text \<open>
  Claim C7, as amended. For every standard output, adapter, prompt and
  \<^verbatim>\<open>max_retries\<close>, \<open>invoke_with_cleaning\<close> calls the adapter at most \<^verbatim>\<open>max_retries\<close>
  times (at most 3 times by default), sleeping 2 seconds between two attempts and at
  no other time. In every run in which no \<^verbatim>\<open>print\<close> raises, and so in every run on a
  stream that takes every text, it returns the cleaned reply of the first attempt
  whose reply is not empty after cleaning, and the empty text when all attempts are
  used up; it does not raise; the text it returns contains neither fence marker; and a
  reply that is empty or blank after cleaning counts exactly as a raised error does.
\<close>

theorem retry_wrapper_contract:
  "((\<forall>p. out p) \<longrightarrow>
      all_printed out (snd (invoke_with_cleaning out llm_adapter prompt max_retries)))
   \<and> (\<exists>k. k \<le> nat max_retries
        \<and> timeline (snd (invoke_with_cleaning out llm_adapter prompt max_retries))
            = attempts_trace k
        \<and> calls (snd (invoke_with_cleaning out llm_adapter prompt max_retries)) = k)
   \<and> calls (snd (invoke_with_cleaning out llm_adapter prompt 3)) \<le> 3
   \<and> (all_printed out (snd (invoke_with_cleaning out llm_adapter prompt max_retries)) \<longrightarrow>
        (fst (invoke_with_cleaning out llm_adapter prompt max_retries),
         timeline (snd (invoke_with_cleaning out llm_adapter prompt max_retries)))
          = (case List.find (\<lambda>i. cleaned_reply (llm_adapter prompt i) \<noteq> [])
                    [0..<nat max_retries] of
               Some i \<Rightarrow> (Inr (cleaned_reply (llm_adapter prompt i)), attempts_trace (Suc i))
             | None \<Rightarrow> (Inr [], attempts_trace (nat max_retries)))
        \<and> (\<exists>result. fst (invoke_with_cleaning out llm_adapter prompt max_retries) = Inr result
               \<and> \<not> sublist ''```'' result \<and> \<not> sublist ''```json'' result))
   \<and> (all_printed out (snd (invoke_with_cleaning out llm_adapter prompt max_retries))
        \<and> all_printed out (snd (invoke_with_cleaning out
               (\<lambda>prompt i. if cleaned_reply (llm_adapter prompt i) = [] then Raises
                            else llm_adapter prompt i) prompt max_retries)) \<longrightarrow>
        fst (invoke_with_cleaning out
               (\<lambda>prompt i. if cleaned_reply (llm_adapter prompt i) = [] then Raises
                            else llm_adapter prompt i) prompt max_retries)
          = fst (invoke_with_cleaning out llm_adapter prompt max_retries)
        \<and> timeline (snd (invoke_with_cleaning out
               (\<lambda>prompt i. if cleaned_reply (llm_adapter prompt i) = [] then Raises
                            else llm_adapter prompt i) prompt max_retries))
          = timeline (snd (invoke_with_cleaning out llm_adapter prompt max_retries)))"
proof (intro conjI impI)
  assume "\<forall>p. out p"
  then show "all_printed out (snd (invoke_with_cleaning out llm_adapter prompt max_retries))"
    by (intro all_printed_accepting) simp
next
  show "\<exists>k. k \<le> nat max_retries
        \<and> timeline (snd (invoke_with_cleaning out llm_adapter prompt max_retries))
            = attempts_trace k
        \<and> calls (snd (invoke_with_cleaning out llm_adapter prompt max_retries)) = k"
    by (rule invoke_with_cleaning_timeline)
next
  from invoke_with_cleaning_timeline [of 3 out llm_adapter prompt]
  show "calls (snd (invoke_with_cleaning out llm_adapter prompt 3)) \<le> 3" by auto
next
  assume "all_printed out (snd (invoke_with_cleaning out llm_adapter prompt max_retries))"
  then show "(fst (invoke_with_cleaning out llm_adapter prompt max_retries),
         timeline (snd (invoke_with_cleaning out llm_adapter prompt max_retries)))
          = (case List.find (\<lambda>i. cleaned_reply (llm_adapter prompt i) \<noteq> [])
                    [0..<nat max_retries] of
               Some i \<Rightarrow> (Inr (cleaned_reply (llm_adapter prompt i)), attempts_trace (Suc i))
             | None \<Rightarrow> (Inr [], attempts_trace (nat max_retries)))"
    by (rule invoke_with_cleaning_printed)
next
  assume "all_printed out (snd (invoke_with_cleaning out llm_adapter prompt max_retries))"
  from invoke_with_cleaning_printed [OF this]
  have "fst (invoke_with_cleaning out llm_adapter prompt max_retries)
          = (case List.find (\<lambda>i. cleaned_reply (llm_adapter prompt i) \<noteq> [])
                    [0..<nat max_retries] of
               Some i \<Rightarrow> Inr (cleaned_reply (llm_adapter prompt i))
             | None \<Rightarrow> Inr [])"
    by (simp split: option.splits)
  moreover have "\<not> sublist ''```'' (cleaned_reply r) \<and> \<not> sublist ''```json'' (cleaned_reply r)"
    for r
    using clean_no_fence by (cases r) (simp_all add: cleaned_reply_def)
  ultimately show "\<exists>result. fst (invoke_with_cleaning out llm_adapter prompt max_retries)
               = Inr result
               \<and> \<not> sublist ''```'' result \<and> \<not> sublist ''```json'' result"
    by (simp split: option.splits)
next
  let ?blank = "\<lambda>prompt i. if cleaned_reply (llm_adapter prompt i) = [] then Raises
                            else llm_adapter prompt i"
  assume a: "all_printed out (snd (invoke_with_cleaning out llm_adapter prompt max_retries))
        \<and> all_printed out (snd (invoke_with_cleaning out ?blank prompt max_retries))"
  have same: "cleaned_reply (if cleaned_reply r = [] then Raises else r) = cleaned_reply r" for r
    by (simp add: cleaned_reply_def)
  from a invoke_with_cleaning_printed [of out llm_adapter prompt max_retries]
    invoke_with_cleaning_printed [of out ?blank prompt max_retries]
  have "(fst (invoke_with_cleaning out ?blank prompt max_retries),
         timeline (snd (invoke_with_cleaning out ?blank prompt max_retries)))
      = (fst (invoke_with_cleaning out llm_adapter prompt max_retries),
         timeline (snd (invoke_with_cleaning out llm_adapter prompt max_retries)))"
    by (simp only: same)
  then show "fst (invoke_with_cleaning out ?blank prompt max_retries)
          = fst (invoke_with_cleaning out llm_adapter prompt max_retries)"
    and "timeline (snd (invoke_with_cleaning out ?blank prompt max_retries))
          = timeline (snd (invoke_with_cleaning out llm_adapter prompt max_retries))"
    by simp_all
qed

theorem retry_wrapper_contract_witness:
  "fst (invoke_with_cleaning (\<lambda>p. True)
     (\<lambda>prompt i. if i = 0 then Replies ''  '' else if i = 1 then Raises
                  else Replies ''```json {} ```'')
     ''merge these'' 3) = Inr ''{}''
   \<and> timeline (snd (invoke_with_cleaning (\<lambda>p. True)
     (\<lambda>prompt i. if i = 0 then Replies ''  '' else if i = 1 then Raises
                  else Replies ''```json {} ```'')
     ''merge these'' 3)) = [Invoke 0, Sleep 2, Invoke 1, Sleep 2, Invoke 2]"
proof -
  note contract = retry_wrapper_contract
    [of "\<lambda>p. True"
        "\<lambda>prompt i. if i = 0 then Replies ''  '' else if i = 1 then Raises
                     else Replies ''```json {} ```''" "''merge these''" 3]
  from contract have "all_printed (\<lambda>p. True) (snd (invoke_with_cleaning (\<lambda>p. True)
     (\<lambda>prompt i. if i = 0 then Replies ''  '' else if i = 1 then Raises
                  else Replies ''```json {} ```'')
     ''merge these'' 3))"
    by simp
  with contract [THEN conjunct2, THEN conjunct2, THEN conjunct2, THEN conjunct1]
  show ?thesis
    by (simp add: cleaned_reply_def clean_def strip_def is_space_def upt_rec
          eval_nat_numeral)
qed

text \<open>
  The claim as first stated fails where a \<^verbatim>\<open>print\<close> raises. On a stream that takes
  the texts but none of the fixed messages, the banner printed before the loop raises
  and the exception leaves the function before the first attempt. On a stream that
  takes everything but the reply, the \<^verbatim>\<open>print\<close> of the reply inside the \<^verbatim>\<open>try\<close>
  turns every attempt into a failed one, and after the last attempt the function
  returns the reply as the adapter gave it, fence markers included.
\<close>

theorem retry_wrapper_print_raises:
  "invoke_with_cleaning (\<lambda>p. case p of Text s \<Rightarrow> True | _ \<Rightarrow> False)
       (\<lambda>prompt i. Replies ''{}'') ''merge these'' 3
     = (Inl UnicodeEncodeError, [Print (Text (CHR 0x0A # ruler (CHR ''=''))), Print PromptBanner])
   \<and> fst (invoke_with_cleaning (\<lambda>p. p \<noteq> Text ''```json {} ```'')
            (\<lambda>prompt i. Replies ''```json {} ```'') ''merge these'' 3)
     = Inr ''```json {} ```''"
proof -
  have ruler: "ruler c \<noteq> ''```json {} ```''" "CHR 0x0A # ruler c \<noteq> ''```json {} ```''"
    "ruler c @ [CHR 0x0A] \<noteq> ''```json {} ```''" for c
    by (auto simp: ruler_def dest: arg_cong [where f = length])
  show ?thesis
    by (simp add: invoke_with_cleaning_def prompt_lines_def reply_lines_def invoke_loop.simps
          one_attempt_def failed_attempt_def ruler)
qed

subsection \<open>Extraction pipelines\<close>











end
